theory Spec2Isabelle
  imports Main "HOL-Library.Word"
begin

unbundle bit_operations_syntax

section \<open>Machine types shared by the client code\<close>

text \<open>
  The client is C++: \<open>uint64_t\<close> and \<open>inode_t\<close> are 64-bit words, \<open>atomic_int32\<close> and
  \<open>unsigned\<close> are 32-bit words. Addition and subtraction on words wrap around as the
  unsigned arithmetic of the source does.
\<close>

type_synonym uint64_t = "64 word"
type_synonym uint32_t = "32 word"
type_synonym inode_t = "64 word"
type_synonym byte = "8 word"

section \<open>Replies, error numbers and failures (cvmfs.cc)\<close>

text \<open>
  The error numbers of \<open><errno.h>\<close> on Linux that the front-end replies with; \<open>ENOATTR\<close>
  is defined as \<open>ENODATA\<close> at the top of cvmfs.cc.
\<close>

definition ENOENT :: int where "ENOENT = 2"
definition EIO :: int where "EIO = 5"
definition EBADF :: int where "EBADF = 9"
definition ENOTDIR :: int where "ENOTDIR = 20"
definition EINVAL :: int where "EINVAL = 22"

definition FUSE_ROOT_ID :: inode_t where "FUSE_ROOT_ID = 1"

text \<open>
  A call that does not come back with a reply: it spins forever (\<open>Hangs\<close>: a sleep loop
  whose condition no other thread changes in a sequential run), an \<open>assert\<close> aborts the
  process, or the behaviour is undefined in C++ (an access outside a container).
\<close>

datatype failure = Hangs | AssertionFailed | UndefinedBehaviour

type_synonym 'a result = "failure + 'a"

text \<open>\<open>struct fuse_file_info\<close>, the fields the front-end reads and writes.\<close>

record fuse_file_info =
  flags :: uint32_t
  fh :: uint64_t
  keep_cache :: bool

text \<open>
  What a callback sends back to the kernel: one constructor per \<open>fuse_reply_*\<close> function
  used by the callbacks modelled here. \<open>fuse_reply_buf\<close> carries the bytes sent (its size
  argument is their number), \<open>fuse_reply_entry\<close> the inode number of the entry
  (\<open>result.ino\<close>).
\<close>

datatype fuse_reply =
    fuse_reply_err int
  | fuse_reply_xattr nat
  | fuse_reply_buf "byte list"
  | fuse_reply_open fuse_file_info
  | fuse_reply_entry inode_t
  | fuse_reply_none



text \<open>
  \<open>atomic_cas32(&x, old, new)\<close>: whether the value was swapped, and the value afterwards.
  \<open>atomic_xadd32(&x, d)\<close>: the value before, and the value afterwards.
\<close>

definition atomic_cas32 :: "uint32_t \<Rightarrow> uint32_t \<Rightarrow> uint32_t \<Rightarrow> bool \<times> uint32_t" where
  "atomic_cas32 x old new = (x = old, if x = old then new else x)"


section \<open>Directory entries, chunks and the tables of the front-end\<close>

text \<open>
  \<open>hash::Any\<close>, \<open>catalog::DirectoryEntry\<close>, \<open>FileChunk\<close>, \<open>ChunkFd\<close> and
  \<open>ChunkTables\<close> are declared in headers outside the sources at hand. A hash is modelled
  by the two methods the code calls on it, a directory entry by the fields and flag queries
  the code reads, the chunk tables by their four members (hash maps as partial functions).
  Offsets (\<open>off_t\<close>) are integers and sizes (\<open>size_t\<close>) natural numbers; where the source
  subtracts sizes below zero, the wrap-around is written out.
\<close>

record hash_Any =
  IsNull :: bool
  ToString :: string

record DirectoryEntry =
  inode :: inode_t
  name :: string
  checksum :: hash_Any
  IsNestedCatalogRoot :: bool
  IsChunkedFile :: bool
  IsDirectory :: bool
  IsLink :: bool

record FileChunk =
  content_hash :: hash_Any
  chunk_offset :: int
  chunk_size :: nat

record FileChunkReflist =
  chunk_list :: "FileChunk list"
  chunk_path :: string

record ChunkFd =
  fd :: int
  chunk_idx :: nat

text \<open>The default constructor \<open>ChunkFd()\<close>: no descriptor open.\<close>

definition ChunkFd_new :: ChunkFd where
  "ChunkFd_new = \<lparr> fd = - 1, chunk_idx = 0 \<rparr>"

record ChunkTables =
  inode2chunks :: "inode_t \<rightharpoonup> FileChunkReflist"
  inode2references :: "inode_t \<rightharpoonup> uint32_t"
  handle2fd :: "uint64_t \<rightharpoonup> ChunkFd"
  next_handle :: uint64_t

text \<open>\<open>struct DirectoryListing\<close>: the kernel-formatted buffer with its size and capacity.\<close>

record DirectoryListing =
  buffer :: "byte list"
  listing_size :: nat
  listing_capacity :: nat

text \<open>
  \<open>DirectoryHandles\<close> is a \<open>google::dense_hash_map<uint64_t, DirectoryListing>\<close>. It is
  modelled as an association list; the order of the list is the order in which the map's
  iterator visits the entries (unspecified in the source, so every theorem below holds for
  every order). The map is created with \<open>set_empty_key((uint64_t)(-1))\<close> and
  \<open>set_deleted_key((uint64_t)(-2))\<close>, so these two values are never keys.
\<close>

type_synonym DirectoryHandles = "(uint64_t \<times> DirectoryListing) list"

definition handle_ids :: "DirectoryHandles \<Rightarrow> uint64_t set" where
  "handle_ids hs = fst ` set hs"

text \<open>\<open>operator[]\<close> followed by assignment: overwrite the entry or append a new one.\<close>

fun handles_assign :: "DirectoryHandles \<Rightarrow> uint64_t \<Rightarrow> DirectoryListing \<Rightarrow> DirectoryHandles" where
  "handles_assign [] k v = [(k, v)]"
| "handles_assign ((k', v') # rest) k v =
     (if k' = k then (k, v) # rest else (k', v') # handles_assign rest k v)"

section \<open>The remount fence (cvmfs.cc, class RemountFence), one thread at a time\<close>

record RemountFence =
  counter :: uint64_t
  blocking :: uint32_t

text \<open>
  The four methods as one thread runs them with no other thread active. \<open>Enter\<close> sleeps
  while \<open>blocking_\<close> is set and \<open>Block\<close> sleeps while \<open>counter_ > 0\<close> (a signed comparison
  on \<open>atomic_int64\<close>); alone, such a loop never ends.
\<close>

definition Enter :: "RemountFence \<Rightarrow> RemountFence result" where
  "Enter f = (if blocking f \<noteq> 0 then Inl Hangs else Inr (f\<lparr> counter := counter f + 1 \<rparr>))"

definition Leave :: "RemountFence \<Rightarrow> RemountFence" where
  "Leave f = f\<lparr> counter := counter f - 1 \<rparr>"

definition Block :: "RemountFence \<Rightarrow> RemountFence result" where
  "Block f =
     (let f' = f\<lparr> blocking := snd (atomic_cas32 (blocking f) 0 1) \<rparr>
      in if sint (counter f') > 0 then Inl Hangs else Inr f')"

definition Unblock :: "RemountFence \<Rightarrow> RemountFence" where
  "Unblock f = f\<lparr> blocking := snd (atomic_cas32 (blocking f) 1 0) \<rparr>"

section \<open>Collaborators of the front-end that live in other modules\<close>

text \<open>
  Modelled from the spec: the meta-data caches of lru.h are not among the sources. Each
  cache supports pause and resume (new inserts are rejected while paused) and drop (clear);
  the model keeps whether the cache is paused and how many entries it holds.
\<close>

record LruCache =
  paused :: bool
  num_entries :: nat

definition Pause :: "LruCache \<Rightarrow> LruCache" where
  "Pause c = c\<lparr> paused := True \<rparr>"

definition Resume :: "LruCache \<Rightarrow> LruCache" where
  "Resume c = c\<lparr> paused := False \<rparr>"

definition Drop :: "LruCache \<Rightarrow> LruCache" where
  "Drop c = c\<lparr> num_entries := 0 \<rparr>"

text \<open>
  Modelled from the spec: the inode tracker of glue_buffer.h is not among the sources. An
  entry is (inode, path, reference count): inserted on a successful lookup, incremented
  per lookup, decremented by \<open>n\<close> on forget and removed at zero.
\<close>

type_synonym InodeTracker = "inode_t \<rightharpoonup> string \<times> nat"

definition VfsGet :: "InodeTracker \<Rightarrow> inode_t \<Rightarrow> string \<Rightarrow> InodeTracker" where
  "VfsGet t ino path =
     (case t ino of
        None \<Rightarrow> t(ino \<mapsto> (path, 1))
      | Some (p, c) \<Rightarrow> t(ino \<mapsto> (p, c + 1)))"

definition VfsPut :: "InodeTracker \<Rightarrow> inode_t \<Rightarrow> nat \<Rightarrow> InodeTracker" where
  "VfsPut t ino n =
     (case t ino of
        None \<Rightarrow> t
      | Some (p, c) \<Rightarrow> if c - n = 0 then t(ino := None) else t(ino \<mapsto> (p, c - n)))"

definition refcount :: "InodeTracker \<Rightarrow> inode_t \<Rightarrow> nat" where
  "refcount t ino = (case t ino of None \<Rightarrow> 0 | Some (p, c) \<Rightarrow> c)"

text \<open>
  The catalog manager (catalog_mgr.h, not among the sources) as the front-end sees it: the
  values of the getters it calls. What \<open>Remount\<close> and \<open>MangleInode\<close> do is a parameter of
  the callbacks below.
\<close>

datatype LoadError = kLoadNew | kLoadUp2Date | kLoadNoSpace | kLoadFail

record CatalogManager =
  GetRevision :: uint64_t
  GetTTL :: uint64_t
  offline_mode :: bool
  GetRootHash :: hash_Any
  GetRootInode :: inode_t
  GetNumCatalogs :: int

record InodeGenerationInfo =
  version :: nat
  initial_revision :: uint64_t
  incarnation :: uint32_t
  overflow_counter :: uint32_t
  inode_generation :: uint64_t

record IoErrorInfo =
  timestamp :: int
  delay :: int

section \<open>The globals of cvmfs.cc\<close>

text \<open>
  The file-scope variables the modelled callbacks read and write, under their names
  without the trailing underscore. \<open>atomic_int32\<close> and \<open>unsigned\<close> are 32-bit words
  (read as signed with \<open>sint\<close> where the source compares them as \<open>int\<close>), \<open>atomic_int64\<close>
  and \<open>uint64_t\<close> 64-bit words, \<open>time_t\<close> an integer. \<open>kcache_timeout\<close> holds
  \<open>int(kcache_timeout_)\<close>, the only form in which the modelled code uses the double.
  \<open>alarm\<close> is the number of seconds of the last \<open>alarm()\<close> call (the pending SIGALRM
  timer of the process), \<open>has_inode_annotation\<close> whether \<open>inode_annotation_\<close> is set.
\<close>

record cvmfs_globals =
  pid :: int
  boot_time :: int
  repository_name :: string
  nfs_maps :: bool
  max_ttl :: uint32_t
  kcache_timeout :: int
  has_inode_annotation :: bool
  catalog_manager :: CatalogManager
  inode_cache :: LruCache
  path_cache :: LruCache
  md5path_cache :: LruCache
  inode_tracker :: InodeTracker
  inode_generation_info :: InodeGenerationInfo
  maintenance_mode :: uint32_t
  catalogs_expired :: uint32_t
  drainout_mode :: uint32_t
  reload_critical_section :: uint32_t
  drainout_deadline :: int
  catalogs_valid_until :: int
  alarm :: uint32_t
  remount_fence :: RemountFence
  directory_handles :: DirectoryHandles
  next_directory_handle :: uint64_t
  chunk_tables :: ChunkTables
  previous_io_error :: IoErrorInfo
  num_fs_open :: uint64_t
  num_fs_dir_open :: uint64_t
  num_fs_lookup :: uint64_t
  num_fs_lookup_negative :: uint64_t
  num_fs_read :: uint64_t
  num_fs_forget :: uint64_t
  num_io_error :: uint32_t
  open_files :: uint32_t
  open_dirs :: uint32_t
  max_open_files :: uint32_t

definition kShortTermTTL :: uint32_t where "kShortTermTTL = 180"
definition kReloadSafetyMargin :: nat where "kReloadSafetyMargin = 500"

text \<open>The fence of the globals entered and left by a callback.\<close>

definition fence_Enter :: "cvmfs_globals \<Rightarrow> cvmfs_globals result" where
  "fence_Enter g =
     (case Enter (remount_fence g) of
        Inl e \<Rightarrow> Inl e
      | Inr f \<Rightarrow> Inr (g\<lparr> remount_fence := f \<rparr>))"

definition fence_Leave :: "cvmfs_globals \<Rightarrow> cvmfs_globals" where
  "fence_Leave g = g\<lparr> remount_fence := Leave (remount_fence g) \<rparr>"

section \<open>Catalog reload: RemountStart, RemountFinish, RemountCheck (cvmfs.cc)\<close>

text \<open>
  The methods of the catalog manager whose code is in catalog_mgr.h and cache.cc, taken as
  parameters: \<open>Remount(dry_run)\<close> answers with a load error and leaves the manager in a
  new state, \<open>MangleInode\<close> maps a kernel inode, and \<open>GetGeneration\<close> is read from the
  inode annotation the manager shares with the front-end.
\<close>

record mgr_methods =
  Remount :: "bool \<Rightarrow> CatalogManager \<Rightarrow> LoadError \<times> CatalogManager"
  MangleInode :: "CatalogManager \<Rightarrow> inode_t \<Rightarrow> inode_t"
  GetGeneration :: "CatalogManager \<Rightarrow> uint64_t"

text \<open>
  The wall clock: what \<open>time(NULL)\<close> returns at each of the four places where the reload
  code reads it (the deadline test and the assignment of \<open>catalogs_valid_until_\<close> in
  \<open>RemountFinish\<close>, the deadline computation in \<open>RemountStart\<close>, the assignment of
  \<open>catalogs_valid_until_\<close> in \<open>RemountCheck\<close>).
\<close>

record remount_clock =
  time_finish_check :: int
  time_finish_valid :: int
  time_start :: int
  time_check_valid :: int

definition GetMaxTTL :: "cvmfs_globals \<Rightarrow> uint32_t" where
  "GetMaxTTL g = max_ttl g div 60"

definition GetEffectiveTTL :: "cvmfs_globals \<Rightarrow> uint32_t" where
  "GetEffectiveTTL g =
     (let max_ttl' = GetMaxTTL g * 60;
          catalog_ttl = (ucast (GetTTL (catalog_manager g)) :: uint32_t)
      in if max_ttl' \<noteq> 0 then min max_ttl' catalog_ttl else catalog_ttl)"

definition RemountStart ::
  "mgr_methods \<Rightarrow> remount_clock \<Rightarrow> cvmfs_globals \<Rightarrow> LoadError \<times> cvmfs_globals" where
  "RemountStart m clk g =
     (let (retval, mgr) = Remount m True (catalog_manager g);
          g1 = g\<lparr> catalog_manager := mgr \<rparr>
      in if retval = kLoadNew then
           let safety_margin0 = kReloadSafetyMargin div 1000;
               safety_margin = (if safety_margin0 = 0 then 1 else safety_margin0)
           in (retval,
               g1\<lparr> drainout_deadline := time_start clk + kcache_timeout g1 + int safety_margin,
                   drainout_mode := snd (atomic_cas32 (drainout_mode g1) 0 1) \<rparr>)
         else (retval, g1))"

text \<open>
  The body of \<open>RemountFinish\<close> once the critical section is taken and drain-out mode is on
  and the deadline has passed: pause and drop the caches, block the fence, remount, unblock,
  resume, leave drain-out mode and set the alarm and \<open>catalogs_valid_until_\<close>.
\<close>

definition RemountFinish_apply ::
  "mgr_methods \<Rightarrow> remount_clock \<Rightarrow> cvmfs_globals \<Rightarrow> cvmfs_globals result" where
  "RemountFinish_apply m clk g =
     (let g1 = g\<lparr> inode_cache := Drop (Pause (inode_cache g)),
                  path_cache := Drop (Pause (path_cache g)),
                  md5path_cache := Drop (Pause (md5path_cache g)) \<rparr>
      in case Block (remount_fence g1) of
           Inl e \<Rightarrow> Inl e
         | Inr f \<Rightarrow>
             let (retval, mgr) = Remount m False (catalog_manager g1);
                 g2 = g1\<lparr> remount_fence := f, catalog_manager := mgr \<rparr>;
                 g3 = (if has_inode_annotation g2
                       then g2\<lparr> inode_generation_info :=
                               (inode_generation_info g2)\<lparr> inode_generation := GetGeneration m mgr \<rparr> \<rparr>
                       else g2);
                 g4 = g3\<lparr> remount_fence := Unblock (remount_fence g3),
                          inode_cache := Resume (inode_cache g3),
                          path_cache := Resume (path_cache g3),
                          md5path_cache := Resume (md5path_cache g3),
                          drainout_mode := snd (atomic_cas32 (drainout_mode g3) 1 0) \<rparr>
             in if retval = kLoadFail \<or> retval = kLoadNoSpace \<or> offline_mode (catalog_manager g4)
                then Inr (g4\<lparr> alarm := kShortTermTTL,
                              catalogs_valid_until := time_finish_valid clk + uint kShortTermTTL \<rparr>)
                else Inr (g4\<lparr> alarm := GetEffectiveTTL g4,
                              catalogs_valid_until :=
                                time_finish_valid clk + uint (GetEffectiveTTL g4) \<rparr>))"

definition RemountFinish ::
  "mgr_methods \<Rightarrow> remount_clock \<Rightarrow> cvmfs_globals \<Rightarrow> cvmfs_globals result" where
  "RemountFinish m clk g =
     (if \<not> fst (atomic_cas32 (reload_critical_section g) 0 1) then Inr g
      else
        let g1 = g\<lparr> reload_critical_section := snd (atomic_cas32 (reload_critical_section g) 0 1) \<rparr>
        in if drainout_mode g1 = 0
           then Inr (g1\<lparr> reload_critical_section :=
                         snd (atomic_cas32 (reload_critical_section g1) 1 0) \<rparr>)
           else
             (case (if time_finish_check clk > drainout_deadline g1
                    then RemountFinish_apply m clk g1 else Inr g1) of
                Inl e \<Rightarrow> Inl e
              | Inr g2 \<Rightarrow>
                  Inr (g2\<lparr> reload_critical_section :=
                           snd (atomic_cas32 (reload_critical_section g2) 1 0) \<rparr>)))"

definition RemountCheck ::
  "mgr_methods \<Rightarrow> remount_clock \<Rightarrow> cvmfs_globals \<Rightarrow> cvmfs_globals result" where
  "RemountCheck m clk g =
     (if maintenance_mode g = 1 then Inr g
      else
        case RemountFinish m clk g of
          Inl e \<Rightarrow> Inl e
        | Inr g1 \<Rightarrow>
            if fst (atomic_cas32 (catalogs_expired g1) 1 0) then
              let g2 = g1\<lparr> catalogs_expired := snd (atomic_cas32 (catalogs_expired g1) 1 0) \<rparr>;
                  (retval, g3) = RemountStart m clk g2
              in if retval = kLoadFail \<or> retval = kLoadNoSpace then
                   Inr (g3\<lparr> alarm := kShortTermTTL,
                            catalogs_valid_until := time_check_valid clk + uint kShortTermTTL \<rparr>)
                 else if retval = kLoadUp2Date then
                   Inr (g3\<lparr> alarm := GetEffectiveTTL g3,
                            catalogs_valid_until :=
                              time_check_valid clk + uint (GetEffectiveTTL g3) \<rparr>)
                 else Inr g3
            else Inr g1)"

text \<open>
  Modelled from the spec: the implementation of \<open>Remount\<close> (catalog_mgr.h and cache.cc
  are not among the sources). A new revision is committed only by a call with
  \<open>dry_run = false\<close> that answers new-revision: a dry run only stages the new root
  catalog, a failed fetch or verification commits no partial state, and in offline mode the
  manager serves from the catalogs already loaded.
\<close>

definition remount_contract :: "mgr_methods \<Rightarrow> bool" where
  "remount_contract m =
     (\<forall>dry_run mgr.
        dry_run \<or> fst (Remount m dry_run mgr) \<noteq> kLoadNew \<or>
        offline_mode (snd (Remount m dry_run mgr))
        \<longrightarrow> GetRevision (snd (Remount m dry_run mgr)) = GetRevision mgr)"

text \<open>
  The conditions that decide which way \<open>RemountCheck\<close> goes, named after the tests of
  the code. \<open>RemountFinish\<close> reaches the remount when it takes the critical section, finds
  drain-out mode on and the deadline passed. The remount there counts as failed on the test
  that selects the short-term TTL. The catalog manager that \<open>RemountFinish\<close> leaves
  behind is the one \<open>Remount(false)\<close> returned, or the one it found; \<open>RemountStart\<close>
  asks that manager for a dry run.
\<close>

definition finish_applies :: "remount_clock \<Rightarrow> cvmfs_globals \<Rightarrow> bool" where
  "finish_applies clk g =
     (reload_critical_section g = 0 \<and> drainout_mode g \<noteq> 0 \<and>
      drainout_deadline g < time_finish_check clk)"

definition finish_failed :: "mgr_methods \<Rightarrow> cvmfs_globals \<Rightarrow> bool" where
  "finish_failed m g =
     (fst (Remount m False (catalog_manager g)) = kLoadFail \<or>
      fst (Remount m False (catalog_manager g)) = kLoadNoSpace \<or>
      offline_mode (snd (Remount m False (catalog_manager g))))"

definition manager_after_finish ::
  "mgr_methods \<Rightarrow> remount_clock \<Rightarrow> cvmfs_globals \<Rightarrow> CatalogManager" where
  "manager_after_finish m clk g =
     (if finish_applies clk g then snd (Remount m False (catalog_manager g))
      else catalog_manager g)"

definition start_answer :: "mgr_methods \<Rightarrow> remount_clock \<Rightarrow> cvmfs_globals \<Rightarrow> LoadError" where
  "start_answer m clk g = fst (Remount m True (manager_after_finish m clk g))"

section \<open>lookup and forget (cvmfs.cc)\<close>

text \<open>
  Between \<open>remount_fence_->Enter()\<close> and the two reply labels, \<open>cvmfs_lookup\<close> resolves the
  name through \<open>GetDirentForInode\<close>, \<open>GetPathForInode\<close> and \<open>GetDirentForPath\<close>, which
  read the inode tracker and the catalog manager and insert into the meta-data caches. The
  outcome of that resolution is a parameter: at \<open>reply_positive\<close> the entry found and the
  value of the local \<open>path\<close> (empty for the special names \<open>.\<close> and \<open>..\<close>), or
  \<open>reply_negative\<close>; and the three caches as the resolution leaves them.
\<close>

record lookup_env =
  lookup_outcome :: "(DirectoryEntry \<times> string) option"
  caches_after :: "LruCache \<times> LruCache \<times> LruCache"

definition cvmfs_lookup ::
  "mgr_methods \<Rightarrow> remount_clock \<Rightarrow> lookup_env \<Rightarrow> cvmfs_globals \<Rightarrow> inode_t \<Rightarrow> string
     \<Rightarrow> (fuse_reply \<times> cvmfs_globals) result" where
  "cvmfs_lookup m clk env g parent nm =
     (case RemountCheck m clk (g\<lparr> num_fs_lookup := num_fs_lookup g + 1 \<rparr>) of
        Inl e \<Rightarrow> Inl e
      | Inr g1 \<Rightarrow>
          (case fence_Enter g1 of
             Inl e \<Rightarrow> Inl e
           | Inr g2 \<Rightarrow>
               let g3 = g2\<lparr> inode_cache := fst (caches_after env),
                            path_cache := fst (snd (caches_after env)),
                            md5path_cache := snd (snd (caches_after env)) \<rparr>
               in (case lookup_outcome env of
                     Some (d, path) \<Rightarrow>
                       let g4 = (if \<not> nfs_maps g3
                                 then g3\<lparr> inode_tracker := VfsGet (inode_tracker g3) (inode d) path \<rparr>
                                 else g3)
                       in Inr (fuse_reply_entry (inode d), fence_Leave g4)
                   | None \<Rightarrow>
                       let g4 = fence_Leave g3
                       in Inr (fuse_reply_entry 0,
                               g4\<lparr> num_fs_lookup_negative := num_fs_lookup_negative g4 + 1 \<rparr>))))"

definition cvmfs_forget ::
  "mgr_methods \<Rightarrow> cvmfs_globals \<Rightarrow> inode_t \<Rightarrow> nat \<Rightarrow> (fuse_reply \<times> cvmfs_globals) result" where
  "cvmfs_forget m g ino nlookup =
     (let g1 = g\<lparr> num_fs_forget := num_fs_forget g + 1 \<rparr>
      in if ino = FUSE_ROOT_ID then Inr (fuse_reply_none, g1)
         else
           (case fence_Enter g1 of
              Inl e \<Rightarrow> Inl e
            | Inr g2 \<Rightarrow>
                let ino' = MangleInode m (catalog_manager g2) ino;
                    g3 = (if \<not> nfs_maps g2
                          then g2\<lparr> inode_tracker := VfsPut (inode_tracker g2) ino' nlookup \<rparr>
                          else g2)
                in Inr (fuse_reply_none, fence_Leave g3)))"

section \<open>Opening files (cvmfs.cc, cvmfs_open)\<close>








section \<open>Extended attributes (cvmfs.cc, cvmfs_getxattr)\<close>




text \<open>The attribute names that \<open>cvmfs_getxattr\<close> compares against.\<close>

definition known_xattrs :: "string list" where
  "known_xattrs =
    [''user.pid'', ''user.version'', ''user.hash'', ''user.lhash'', ''user.revision'',
     ''user.root_hash'', ''user.expires'', ''user.maxfd'', ''user.usedfd'', ''user.useddirp'',
     ''user.nioerr'', ''user.proxy'', ''user.host'', ''user.uptime'', ''user.nclg'',
     ''user.nopen'', ''user.ndiropen'', ''user.ndownload'', ''user.timeout'',
     ''user.timeout_direct'', ''user.rx'', ''user.speed'', ''user.fqrn'']"

section \<open>Directory handles across a state hand-over (cvmfs.cc)\<close>

text \<open>
  The saved states handed to \<open>RestoreState\<close>, one constructor per state id with the
  object behind its \<open>state\<close> pointer. For the two old inode-tracker formats the payload is
  the tracker that the \<open>Migrate\<close> function of compat.h (not among the sources) produces.
\<close>

datatype SavedState =
    StateOpenDirs DirectoryHandles
  | StateGlueBuffer InodeTracker
  | StateGlueBufferV2 InodeTracker
  | StateGlueBufferV3 InodeTracker
  | StateOpenFiles ChunkTables
  | StateInodeGeneration InodeGenerationInfo
  | StateOpenFilesCounter uint32_t
  | StateUnknown nat

text \<open>
  The inner loop of the \<open>kStateOpenDirs\<close> branch:
  \<^verbatim>\<open>for (; i != directory_handles_->end(); ++i)
    if (i->first >= next_directory_handle_) next_directory_handle_ = i->first + 1;\<close>
\<close>

fun restore_next_handle :: "DirectoryHandles \<Rightarrow> uint64_t \<Rightarrow> uint64_t" where
  "restore_next_handle [] nxt = nxt"
| "restore_next_handle ((h, l) # rest) nxt =
     restore_next_handle rest (if h \<ge> nxt then h + 1 else nxt)"

definition RestoreState_OpenDirs :: "DirectoryHandles \<Rightarrow> cvmfs_globals \<Rightarrow> cvmfs_globals" where
  "RestoreState_OpenDirs saved_handles g =
     g\<lparr> directory_handles := saved_handles,
        open_dirs := of_nat (length saved_handles),
        next_directory_handle := restore_next_handle saved_handles (next_directory_handle g) \<rparr>"

definition RestoreState_InodeGeneration :: "InodeGenerationInfo \<Rightarrow> cvmfs_globals \<Rightarrow> cvmfs_globals" where
  "RestoreState_InodeGeneration old_info g =
     (let info = (if version old_info = 1
                  then (inode_generation_info g)\<lparr> initial_revision := initial_revision old_info,
                                                  incarnation := incarnation old_info \<rparr>
                  else old_info)
      in g\<lparr> inode_generation_info := info\<lparr> incarnation := incarnation info + 1 \<rparr> \<rparr>)"

text \<open>
  The loop of \<open>RestoreState\<close> over the saved states. The call of \<open>IncGeneration\<close> after
  the loop changes the annotation object, which is not one of the modelled globals.
\<close>

fun RestoreState :: "SavedState list \<Rightarrow> cvmfs_globals \<Rightarrow> cvmfs_globals" where
  "RestoreState [] g = g"
| "RestoreState (StateOpenDirs saved_handles # rest) g =
     RestoreState rest (RestoreState_OpenDirs saved_handles g)"
| "RestoreState (StateGlueBuffer t # rest) g = RestoreState rest (g\<lparr> inode_tracker := t \<rparr>)"
| "RestoreState (StateGlueBufferV2 t # rest) g = RestoreState rest (g\<lparr> inode_tracker := t \<rparr>)"
| "RestoreState (StateGlueBufferV3 t # rest) g = RestoreState rest (g\<lparr> inode_tracker := t \<rparr>)"
| "RestoreState (StateOpenFiles t # rest) g = RestoreState rest (g\<lparr> chunk_tables := t \<rparr>)"
| "RestoreState (StateInodeGeneration old_info # rest) g =
     RestoreState rest (RestoreState_InodeGeneration old_info g)"
| "RestoreState (StateOpenFilesCounter n # rest) g = RestoreState rest (g\<lparr> open_files := n \<rparr>)"
| "RestoreState (StateUnknown n # rest) g = RestoreState rest g"

text \<open>
  The end of \<open>cvmfs_opendir\<close>, once the listing buffer is built: the listing is stored
  under \<open>next_directory_handle_\<close>, that value is returned in \<open>fi->fh\<close>, and the counter is
  incremented. The result is the handle given to the kernel and the new globals.
\<close>

definition opendir_register :: "DirectoryListing \<Rightarrow> cvmfs_globals \<Rightarrow> uint64_t \<times> cvmfs_globals" where
  "opendir_register stream_listing g =
     (next_directory_handle g,
      g\<lparr> directory_handles :=
           handles_assign (directory_handles g) (next_directory_handle g) stream_listing,
         next_directory_handle := next_directory_handle g + 1,
         num_fs_dir_open := num_fs_dir_open g + 1,
         open_dirs := open_dirs g + 1 \<rparr>)"

text \<open>
  Two predicates on the handle table: no key is the reserved empty key \<open>(uint64_t)(-1)\<close>,
  and every key is below the counter from which the next handle is taken.
\<close>

definition no_empty_key :: "DirectoryHandles \<Rightarrow> bool" where
  "no_empty_key hs = list_all (\<lambda>(h, l). h \<noteq> - 1) hs"

fun saved_states_ok :: "SavedState list \<Rightarrow> bool" where
  "saved_states_ok [] = True"
| "saved_states_ok (StateOpenDirs hs # rest) = (no_empty_key hs \<and> saved_states_ok rest)"
| "saved_states_ok (s # rest) = saved_states_ok rest"

definition handles_below :: "cvmfs_globals \<Rightarrow> bool" where
  "handles_below g = list_all (\<lambda>(h, l). h < next_directory_handle g) (directory_handles g)"

text \<open>A run of opendir calls after the hand-over: the handles issued, in order.\<close>

fun opendir_run :: "DirectoryListing list \<Rightarrow> cvmfs_globals \<Rightarrow> uint64_t list \<times> cvmfs_globals" where
  "opendir_run [] g = ([], g)"
| "opendir_run (l # ls) g =
     (case opendir_register l g of
        (h, g') \<Rightarrow> (case opendir_run ls g' of (hs, g'') \<Rightarrow> (h # hs, g'')))"

text \<open>
  A state of the globals right after \<open>Init\<close>: empty tables, counters at zero, no reload in
  progress, a limit of 1024 open files. Used for concrete instances.
\<close>

definition fresh_globals :: cvmfs_globals where
  "fresh_globals =
     \<lparr> pid = 4711, boot_time = 0, repository_name = ''atlas.cern.ch'', nfs_maps = False,
       max_ttl = 0, kcache_timeout = 60, has_inode_annotation = True,
       catalog_manager = \<lparr> GetRevision = 7, GetTTL = 3600, offline_mode = False,
                           GetRootHash = \<lparr> IsNull = False, ToString = ''abc'' \<rparr>,
                           GetRootInode = 256, GetNumCatalogs = 1 \<rparr>,
       inode_cache = \<lparr> paused = False, num_entries = 0 \<rparr>,
       path_cache = \<lparr> paused = False, num_entries = 0 \<rparr>,
       md5path_cache = \<lparr> paused = False, num_entries = 0 \<rparr>,
       inode_tracker = Map.empty,
       inode_generation_info = \<lparr> version = 2, initial_revision = 0, incarnation = 0,
                                 overflow_counter = 0, inode_generation = 0 \<rparr>,
       maintenance_mode = 0, catalogs_expired = 0, drainout_mode = 0,
       reload_critical_section = 0, drainout_deadline = 0, catalogs_valid_until = 3600,
       alarm = 3600,
       remount_fence = \<lparr> counter = 0, blocking = 0 \<rparr>,
       directory_handles = [], next_directory_handle = 0,
       chunk_tables = \<lparr> inode2chunks = Map.empty, inode2references = Map.empty,
                        handle2fd = Map.empty, next_handle = 2 \<rparr>,
       previous_io_error = \<lparr> timestamp = 0, delay = 0 \<rparr>,
       num_fs_open = 0, num_fs_dir_open = 0, num_fs_lookup = 0, num_fs_lookup_negative = 0,
       num_fs_read = 0, num_fs_forget = 0, num_io_error = 0, open_files = 0, open_dirs = 0,
       max_open_files = 1024 \<rparr>"

section \<open>Runs of lookup and forget calls\<close>

text \<open>
  A sequence of calls that the kernel delivers, each with the parameters the model of the
  callback takes, and the replies it gets back.
\<close>

datatype fs_call =
    Lookup remount_clock lookup_env inode_t string
  | Forget inode_t nat

fun fs_step :: "mgr_methods \<Rightarrow> fs_call \<Rightarrow> cvmfs_globals \<Rightarrow> (fuse_reply \<times> cvmfs_globals) result" where
  "fs_step m (Lookup clk env parent nm) g = cvmfs_lookup m clk env g parent nm"
| "fs_step m (Forget ino n) g = cvmfs_forget m g ino n"

fun run_calls ::
  "mgr_methods \<Rightarrow> fs_call list \<Rightarrow> cvmfs_globals \<Rightarrow> (fuse_reply list \<times> cvmfs_globals) result" where
  "run_calls m [] g = Inr ([], g)"
| "run_calls m (c # cs) g =
     (case fs_step m c g of
        Inl e \<Rightarrow> Inl e
      | Inr (r, g') \<Rightarrow>
          (case run_calls m cs g' of
             Inl e \<Rightarrow> Inl e
           | Inr (rs, g'') \<Rightarrow> Inr (r # rs, g'')))"

text \<open>
  The references the kernel holds on inode \<open>i\<close> after a run: one per lookup that replied
  with \<open>i\<close>, minus the \<open>n\<close> of each \<open>forget(i, n)\<close>.
\<close>

fun kernel_refs :: "inode_t \<Rightarrow> (fs_call \<times> fuse_reply) list \<Rightarrow> int" where
  "kernel_refs i [] = 0"
| "kernel_refs i ((Lookup clk env parent nm, r) # rest) =
     (if r = fuse_reply_entry i then 1 else 0) + kernel_refs i rest"
| "kernel_refs i ((Forget j n, r) # rest) =
     (if j = i then - int n else 0) + kernel_refs i rest"

text \<open>
  The kernel's side of the protocol for inode \<open>i\<close>, checked call by call along the run.
  A \<open>forget(i, n)\<close> arrives while \<open>MangleInode\<close> maps \<open>i\<close> to itself and asks for no
  more references than the tracker holds; a forget of another number, \<open>FUSE_ROOT_ID\<close>
  apart, arrives while \<open>MangleInode\<close> maps that number to something other than \<open>i\<close>.
\<close>

fun forgets_covered :: "mgr_methods \<Rightarrow> inode_t \<Rightarrow> fs_call list \<Rightarrow> cvmfs_globals \<Rightarrow> bool" where
  "forgets_covered m i [] g = True"
| "forgets_covered m i (c # cs) g =
     ((case c of
         Forget j n \<Rightarrow>
           if j = i then MangleInode m (catalog_manager g) i = i \<and> n \<le> refcount (inode_tracker g) i
           else j = FUSE_ROOT_ID \<or> MangleInode m (catalog_manager g) j \<noteq> i
       | Lookup clk env parent nm \<Rightarrow> True) \<and>
      (case fs_step m c g of
         Inl e \<Rightarrow> True
       | Inr (r, g') \<Rightarrow> forgets_covered m i cs g'))"

text \<open>The replies of a run together with the reference count the tracker ends with.\<close>

definition final_refcount ::
  "mgr_methods \<Rightarrow> fs_call list \<Rightarrow> cvmfs_globals \<Rightarrow> inode_t \<Rightarrow> (fuse_reply list \<times> nat) option" where
  "final_refcount m calls g i =
     (case run_calls m calls g of
        Inl e \<Rightarrow> None
      | Inr (rs, g') \<Rightarrow> Some (rs, refcount (inode_tracker g') i))"

section \<open>Concrete parameters for instances\<close>



text \<open>
  A catalog manager whose reload always fails and which maps the kernel's low inode
  numbers to the root inode 256.
\<close>

definition failing_mgr :: mgr_methods where
  "failing_mgr =
     \<lparr> Remount = (\<lambda>dry_run mgr. (kLoadFail, mgr)),
       MangleInode = (\<lambda>mgr ino. if ino \<le> 255 then 256 else ino),
       GetGeneration = (\<lambda>mgr. 0) \<rparr>"

text \<open>
  A manager whose staged revision fails to load while a dry run finds the loaded revision up
  to date.
\<close>

definition up_to_date_mgr :: mgr_methods where
  "up_to_date_mgr =
     \<lparr> Remount = (\<lambda>dry_run mgr. (if dry_run then kLoadUp2Date else kLoadFail, mgr)),
       MangleInode = (\<lambda>mgr ino. if ino \<le> 255 then 256 else ino),
       GetGeneration = (\<lambda>mgr. 0) \<rparr>"

definition sample_clock :: remount_clock where
  "sample_clock = \<lparr> time_finish_check = 1000, time_finish_valid = 1001,
                    time_start = 1002, time_check_valid = 1003 \<rparr>"

text \<open>
  The globals in drain-out mode with a deadline in the past and the TTL alarm fired.
\<close>

definition draining_globals :: cvmfs_globals where
  "draining_globals =
     fresh_globals\<lparr> drainout_mode := 1, drainout_deadline := 500, catalogs_expired := 1 \<rparr>"

definition sample_dirent :: DirectoryEntry where
  "sample_dirent =
     \<lparr> inode = 300, name = ''file'', checksum = \<lparr> IsNull = False, ToString = ''0a1b'' \<rparr>,
       IsNestedCatalogRoot = False, IsChunkedFile = False, IsDirectory = False,
       IsLink = False \<rparr>"






definition sample_lookup_env :: lookup_env where
  "sample_lookup_env =
     \<lparr> lookup_outcome = Some (sample_dirent, ''/dir/file''),
       caches_after = (\<lparr> paused = False, num_entries = 1 \<rparr>,
                       \<lparr> paused = False, num_entries = 1 \<rparr>,
                       \<lparr> paused = False, num_entries = 1 \<rparr>) \<rparr>"

text \<open>
  The outcome of a lookup of \<open>..\<close> in a directory whose entry is the root: the code
  sets the inode of the entry to 1 and leaves the local \<open>path\<close> empty.
\<close>

definition dotdot_lookup_env :: lookup_env where
  "dotdot_lookup_env =
     \<lparr> lookup_outcome = Some (sample_dirent\<lparr> inode := 1, IsDirectory := True \<rparr>, []),
       caches_after = (\<lparr> paused = False, num_entries = 1 \<rparr>,
                       \<lparr> paused = False, num_entries = 1 \<rparr>,
                       \<lparr> paused = False, num_entries = 1 \<rparr>) \<rparr>"

text \<open>
  The outcome of a lookup of \<open>.\<close> in the root directory, whose entry has the root inode
  256; the local \<open>path\<close> is empty.
\<close>

definition dot_lookup_env :: lookup_env where
  "dot_lookup_env =
     \<lparr> lookup_outcome = Some (sample_dirent\<lparr> inode := 256, IsDirectory := True \<rparr>, []),
       caches_after = (\<lparr> paused = False, num_entries = 1 \<rparr>,
                       \<lparr> paused = False, num_entries = 1 \<rparr>,
                       \<lparr> paused = False, num_entries = 1 \<rparr>) \<rparr>"

text \<open>The globals of a mount with \<open>nfs_maps_\<close> set.\<close>

definition nfs_globals :: cvmfs_globals where
  "nfs_globals = fresh_globals\<lparr> nfs_maps := True \<rparr>"

section \<open>Reading chunked files (cvmfs.cc, cvmfs_read)\<close>

text \<open>
  The part of the operating system that \<open>cvmfs_read\<close> touches: the descriptors the process
  has open, each with the bytes of the file behind it. \<open>pread\<close> on a regular file in the
  local cache returns the bytes asked for, cut at the end of the file; \<open>close\<close> fails on a
  descriptor that is not open. A new descriptor gets a number that is not in use.
\<close>

record os_state =
  open_fds :: "(int \<times> byte list) list"

definition os_pread :: "os_state \<Rightarrow> int \<Rightarrow> nat \<Rightarrow> int \<Rightarrow> int + byte list" where
  "os_pread os d n off =
     (case map_of (open_fds os) d of
        None \<Rightarrow> Inl EBADF
      | Some content \<Rightarrow> if off < 0 then Inl EINVAL else Inr (take n (drop (nat off) content)))"

definition os_close :: "os_state \<Rightarrow> int \<Rightarrow> int \<times> os_state" where
  "os_close os d =
     (if d \<in> fst ` set (open_fds os)
      then (0, os\<lparr> open_fds := filter (\<lambda>p. fst p \<noteq> d) (open_fds os) \<rparr>)
      else (- 1, os))"

definition unused_fd :: "os_state \<Rightarrow> int" where
  "unused_fd os = fold max (map fst (open_fds os)) (- 1) + 1"

text \<open>
  Modelled from the spec: \<open>cache::FetchChunk\<close> (cache.cc is not among the sources) is the
  Fetcher of the specification: given the content digest of a chunk it returns a local file
  descriptor to a verified, decompressed copy, or a negative value when the chunk cannot be
  had. \<open>chunk_store\<close> says which digests can be fetched and what their decompressed
  content is.
\<close>

record read_env =
  chunk_store :: "string \<rightharpoonup> byte list"

definition FetchChunk :: "read_env \<Rightarrow> FileChunk \<Rightarrow> os_state \<Rightarrow> int \<times> os_state" where
  "FetchChunk env c os =
     (case chunk_store env (ToString (content_hash c)) of
        None \<Rightarrow> (- EIO, os)
      | Some content \<Rightarrow> (unused_fd os, os\<lparr> open_fds := (unused_fd os, content) # open_fds os \<rparr>))"

text \<open>Arithmetic on \<open>unsigned\<close> (32 bits) and \<open>size_t\<close> (64 bits), wrap-around written out.\<close>

definition u32 :: "int \<Rightarrow> nat" where
  "u32 i = nat (i mod 4294967296)"

definition u64 :: "int \<Rightarrow> nat" where
  "u64 i = nat (i mod 18446744073709551616)"

text \<open>\<open>chunk_idx = idx_low + (idx_high - idx_low) / 2\<close> on \<open>unsigned\<close>.\<close>

definition idx_middle :: "nat \<Rightarrow> nat \<Rightarrow> nat" where
  "idx_middle idx_low idx_high =
     u32 (int idx_low + int (u32 (int idx_high - int idx_low) div 2))"

text \<open>
  The binary search for the chunk that holds the first byte asked for:
  \<^verbatim>\<open>while (idx_low < idx_high) {
    if (chunks.list->AtPtr(chunk_idx)->offset() > off) {
      assert(idx_high > 0);
      idx_high = chunk_idx - 1;
    } else {
      if ((chunk_idx == chunks.list->size() - 1) ||
          chunks.list->AtPtr(chunk_idx + 1)->offset() > off) break;
      idx_low = chunk_idx + 1;
    }
    chunk_idx = idx_low + (idx_high - idx_low) / 2;
  }\<close>
  An index outside the list is undefined behaviour. With \<open>unsigned\<close> indices that wrap
  around the loop need not end on every input, so it is a partial function.
\<close>

partial_function (option) chunk_search ::
  "FileChunk list \<Rightarrow> int \<Rightarrow> nat \<Rightarrow> nat \<Rightarrow> nat \<Rightarrow> nat result option" where
  "chunk_search chunks off idx_low idx_high idx =
     (if idx_low < idx_high then
        (if idx \<ge> length chunks then Some (Inl UndefinedBehaviour)
         else if chunk_offset (chunks ! idx) > off then
           (if \<not> idx_high > 0 then Some (Inl AssertionFailed)
            else chunk_search chunks off idx_low (u32 (int idx - 1))
                   (idx_middle idx_low (u32 (int idx - 1))))
         else if idx = length chunks - 1 then Some (Inr idx)
         else if u32 (int idx + 1) \<ge> length chunks then Some (Inl UndefinedBehaviour)
         else if chunk_offset (chunks ! u32 (int idx + 1)) > off then Some (Inr idx)
         else chunk_search chunks off (u32 (int idx + 1)) idx_high
                (idx_middle (u32 (int idx + 1)) idx_high))
      else Some (Inr idx))"

text \<open>
  The loop \<open>do { ... } while (overall_bytes_fetched < size && chunk_idx < chunks.list->size())\<close>.
  \<open>sz\<close> is the size asked for, \<open>cfd\<close> the \<open>ChunkFd\<close> of the handle, \<open>idx\<close> the chunk
  index, \<open>offset_in_chunk\<close> where to read in that chunk, \<open>data\<close> the buffer and
  \<open>overall\<close> the 32-bit counter \<open>overall_bytes_fetched\<close>. The result is the error number
  to reply or the bytes to send, the \<open>ChunkFd\<close> to store back, and the new state of the
  descriptors. \<open>open_chunk_fd\<close> is the first statement of the body: unless the handle has
  a descriptor open on this very chunk, close what it has and fetch the chunk.
\<close>

definition open_chunk_fd ::
  "read_env \<Rightarrow> FileChunk list \<Rightarrow> os_state \<Rightarrow> ChunkFd \<Rightarrow> nat \<Rightarrow> bool \<times> ChunkFd \<times> os_state" where
  "open_chunk_fd env chunks os cfd idx =
     (if fd cfd = - 1 \<or> chunk_idx cfd \<noteq> idx
      then (case FetchChunk env (chunks ! idx)
                   (if fd cfd \<noteq> - 1 then snd (os_close os (fd cfd)) else os) of
              (d, os1) \<Rightarrow>
                if d < 0 then (False, cfd\<lparr> fd := - 1 \<rparr>, os1)
                else (True, \<lparr> fd = d, chunk_idx = idx \<rparr>, os1))
      else (True, cfd, os))"

partial_function (option) read_chunks ::
  "read_env \<Rightarrow> FileChunk list \<Rightarrow> nat \<Rightarrow> os_state \<Rightarrow> ChunkFd \<Rightarrow> nat \<Rightarrow> int \<Rightarrow> byte list \<Rightarrow> nat
     \<Rightarrow> ((int + byte list) \<times> ChunkFd \<times> os_state) result option" where
  "read_chunks env chunks sz os cfd idx offset_in_chunk data overall =
     (if idx \<ge> length chunks then Some (Inl UndefinedBehaviour)
      else
        case open_chunk_fd env chunks os cfd idx of
          (opened, cfd1, os1) \<Rightarrow>
            if \<not> opened then Some (Inr (Inl EIO, cfd1, os1))
            else
              (case os_pread os1 (fd cfd1)
                      (min (sz - overall) (u64 (int (chunk_size (chunks ! idx)) - offset_in_chunk)))
                      offset_in_chunk of
                 Inl errno \<Rightarrow> Some (Inr (Inl errno, cfd1, os1))
               | Inr fetched \<Rightarrow>
                   if u32 (int overall + int (length fetched)) < sz \<and>
                      u32 (int idx + 1) < length chunks
                   then read_chunks env chunks sz os1 cfd1 (u32 (int idx + 1)) 0
                          (take overall data @ fetched) (u32 (int overall + int (length fetched)))
                   else Some (Inr (Inr (take (u32 (int overall + int (length fetched)))
                                          (take overall data @ fetched)), cfd1, os1))))"

text \<open>
  \<open>cvmfs_read\<close>. A negative \<open>fi->fh\<close> (read as \<open>int64_t\<close>) is a chunk handle, negated;
  anything else is a descriptor of the local cache. For a whole file the result of
  \<open>pread\<close> goes unchecked into the unsigned counter, so after a failed \<open>pread\<close> the reply
  would send 4294967295 bytes from a buffer of \<open>size\<close> bytes.
\<close>

definition cvmfs_read ::
  "read_env \<Rightarrow> cvmfs_globals \<Rightarrow> os_state \<Rightarrow> inode_t \<Rightarrow> nat \<Rightarrow> int \<Rightarrow> fuse_file_info
     \<Rightarrow> (fuse_reply \<times> cvmfs_globals \<times> os_state) result option" where
  "cvmfs_read env g os ino sz off fi =
     (let g1 = g\<lparr> num_fs_read := num_fs_read g + 1 \<rparr> in
      if sint (fh fi) < 0 then
        (case inode2chunks (chunk_tables g1) ino of
           None \<Rightarrow> Some (Inl AssertionFailed)
         | Some chunks \<Rightarrow>
             if chunk_list chunks = [] then Some (Inl AssertionFailed)
             else
               (case chunk_search (chunk_list chunks) off 0
                       (u32 (int (length (chunk_list chunks)) - 1))
                       (u32 (int (length (chunk_list chunks)) - 1) div 2) of
                  None \<Rightarrow> None
                | Some (Inl e) \<Rightarrow> Some (Inl e)
                | Some (Inr idx) \<Rightarrow>
                    (case handle2fd (chunk_tables g1) (- fh fi) of
                       None \<Rightarrow> Some (Inl AssertionFailed)
                     | Some cfd \<Rightarrow>
                         if idx \<ge> length (chunk_list chunks) then Some (Inl UndefinedBehaviour)
                         else
                           (case read_chunks env (chunk_list chunks) sz os cfd idx
                                   (off - chunk_offset (chunk_list chunks ! idx)) [] 0 of
                              None \<Rightarrow> None
                            | Some (Inl e) \<Rightarrow> Some (Inl e)
                            | Some (Inr (res, cfd1, os1)) \<Rightarrow>
                                Some (Inr
                                  ((case res of
                                      Inl errno \<Rightarrow> fuse_reply_err errno
                                    | Inr data \<Rightarrow> fuse_reply_buf data),
                                   g1\<lparr> chunk_tables := (chunk_tables g1)
                                         \<lparr> handle2fd := (handle2fd (chunk_tables g1))
                                                           (- fh fi \<mapsto> cfd1) \<rparr> \<rparr>,
                                   os1))))))
      else
        (case os_pread os (sint (fh fi)) sz off of
           Inl errno \<Rightarrow> Some (Inl UndefinedBehaviour)
         | Inr data \<Rightarrow> Some (Inr (fuse_reply_buf data, g1, os))))"

text \<open>
  What the claim on chunked reads speaks about: the chunk list is contiguous from offset 0
  with strictly increasing offsets, the file size is the end of the last chunk, the content
  of a chunk is what the fetcher delivers for its digest, and the \<open>ChunkFd\<close> of a handle is
  either closed or open on the content of the chunk it names.
\<close>

fun contiguous_from :: "int \<Rightarrow> FileChunk list \<Rightarrow> bool" where
  "contiguous_from start [] = True"
| "contiguous_from start (c # cs) =
     (chunk_offset c = start \<and> (cs = [] \<or> 0 < chunk_size c) \<and>
      contiguous_from (start + int (chunk_size c)) cs)"

definition file_size :: "FileChunk list \<Rightarrow> nat" where
  "file_size chunks = sum_list (map chunk_size chunks)"

definition chunk_content :: "read_env \<Rightarrow> FileChunk \<Rightarrow> byte list" where
  "chunk_content env c =
     (case chunk_store env (ToString (content_hash c)) of None \<Rightarrow> [] | Some content \<Rightarrow> content)"

definition chunks_fetchable :: "read_env \<Rightarrow> FileChunk list \<Rightarrow> bool" where
  "chunks_fetchable env chunks =
     list_all (\<lambda>c. chunk_store env (ToString (content_hash c)) \<noteq> None \<and>
                    length (chunk_content env c) = chunk_size c) chunks"

definition file_content :: "read_env \<Rightarrow> FileChunk list \<Rightarrow> byte list" where
  "file_content env chunks = concat (map (chunk_content env) chunks)"

definition chunk_fd_valid :: "read_env \<Rightarrow> FileChunk list \<Rightarrow> os_state \<Rightarrow> ChunkFd \<Rightarrow> bool" where
  "chunk_fd_valid env chunks os cfd =
     (fd cfd = - 1 \<or>
      (chunk_idx cfd < length chunks \<and>
       map_of (open_fds os) (fd cfd) = Some (chunk_content env (chunks ! chunk_idx cfd))))"

text \<open>
  A concrete file of ten bytes in three chunks (4, 4 and 2 bytes), open under chunk handle
  2 with no chunk descriptor yet, and no descriptor open in the process.
\<close>

definition sample_chunks :: "FileChunk list" where
  "sample_chunks =
     [\<lparr> content_hash = \<lparr> IsNull = False, ToString = ''h0'' \<rparr>, chunk_offset = 0, chunk_size = 4 \<rparr>,
      \<lparr> content_hash = \<lparr> IsNull = False, ToString = ''h1'' \<rparr>, chunk_offset = 4, chunk_size = 4 \<rparr>,
      \<lparr> content_hash = \<lparr> IsNull = False, ToString = ''h2'' \<rparr>, chunk_offset = 8, chunk_size = 2 \<rparr>]"

definition sample_read_env :: read_env where
  "sample_read_env =
     \<lparr> chunk_store = [''h0'' \<mapsto> [1, 2, 3, 4], ''h1'' \<mapsto> [5, 6, 7, 8], ''h2'' \<mapsto> [9, 10]] \<rparr>"

definition sample_reflist :: FileChunkReflist where
  "sample_reflist = \<lparr> chunk_list = sample_chunks, chunk_path = ''/dir/file'' \<rparr>"

definition reading_globals :: cvmfs_globals where
  "reading_globals =
     fresh_globals\<lparr> chunk_tables :=
       \<lparr> inode2chunks = [300 \<mapsto> sample_reflist],
         inode2references = [300 \<mapsto> 1],
         handle2fd = [2 \<mapsto> ChunkFd_new],
         next_handle = 3 \<rparr> \<rparr>"

definition chunk_fi :: fuse_file_info where
  "chunk_fi = \<lparr> flags = 0, fh = - 2, keep_cache = False \<rparr>"

definition no_fds :: os_state where
  "no_fds = \<lparr> open_fds = [] \<rparr>"

section \<open>Inode assignment in a catalog (catalog.cc)\<close>

text \<open>
  \<open>InodeRange\<close> and \<open>InodeAnnotation\<close> are declared in headers that are not part of
  the sources at hand. The range is a record of its two fields; \<open>IsDummy\<close> and the constant
  \<open>DirectoryEntry::kInvalidInode\<close> are parameters of the model (\<open>catalog_decls\<close>); an
  annotation is the pair of its two virtual methods.
\<close>

record InodeRange =
  offset :: uint64_t
  range_size :: uint64_t

record InodeAnnotation =
  Annotate :: "inode_t \<Rightarrow> inode_t"
  Strip :: "inode_t \<Rightarrow> inode_t"

record catalog_decls =
  IsDummy :: "InodeRange \<Rightarrow> bool"
  kInvalidInode :: inode_t

text \<open>
  The members of \<open>Catalog\<close> that inode mangling uses. \<open>initialized\<close> stands for the
  member \<open>initialized_\<close>, which \<open>IsInitialized()\<close> returns: the constructor sets it to
  false and \<open>OpenDatabase\<close> to true once the database is read. \<open>hardlink_groups_\<close> is a
  \<open>std::map\<close> declared \<open>mutable\<close>: \<open>GetMangledInode\<close> writes it, so the model returns
  the updated catalog. \<open>GetMangledInode\<close> starts with \<open>assert(IsInitialized())\<close>: on a
  catalog that is not initialised the program aborts.
\<close>

record inode_ctx =
  initialized :: bool
  inode_range :: InodeRange
  inode_annotation :: "InodeAnnotation option"
  hardlink_groups :: "uint64_t \<rightharpoonup> inode_t"

definition GetMangledInode ::
  "catalog_decls \<Rightarrow> inode_ctx \<Rightarrow> uint64_t \<Rightarrow> uint64_t \<Rightarrow> (inode_t \<times> inode_ctx) result" where
  "GetMangledInode decls c row_id hardlink_group =
     (if \<not> initialized c then Inl AssertionFailed
      else if IsDummy decls (inode_range c) then Inr (kInvalidInode decls, c)
      else
        let inode0 = row_id + offset (inode_range c);
            (inode1, c1) =
              (if hardlink_group > 0 then
                 (case hardlink_groups c hardlink_group of
                    None \<Rightarrow> (inode0, c\<lparr> hardlink_groups := (hardlink_groups c)(hardlink_group \<mapsto> inode0) \<rparr>)
                  | Some cached \<Rightarrow> (cached, c))
               else (inode0, c));
            inode2 = (case inode_annotation c of
                        Some a \<Rightarrow> Annotate a inode1
                      | None \<Rightarrow> inode1)
        in Inr (inode2, c1))"

definition GetRowIdFromInode :: "inode_ctx \<Rightarrow> inode_t \<Rightarrow> uint64_t" where
  "GetRowIdFromInode c ino =
     (let row_id = (case inode_annotation c of
                      Some a \<Rightarrow> Strip a ino
                    | None \<Rightarrow> ino)
      in row_id - offset (inode_range c))"

text \<open>
  An annotation undoes itself when \<open>Strip\<close> inverts \<open>Annotate\<close>; a catalog without an
  annotation needs nothing.
\<close>

definition annotation_invertible :: "InodeAnnotation option \<Rightarrow> bool" where
  "annotation_invertible ann =
     (case ann of None \<Rightarrow> True | Some a \<Rightarrow> (\<forall>i. Strip a (Annotate a i) = i))"

text \<open>An annotation that XORs a generation value into the inode; used as a concrete instance.\<close>

definition xor_annotation :: "uint64_t \<Rightarrow> InodeAnnotation" where
  "xor_annotation g = \<lparr> Annotate = (\<lambda>i. i XOR g), Strip = (\<lambda>i. i XOR g) \<rparr>"

section \<open>Lookups and listings in a catalog (catalog.cc)\<close>

text \<open>
  A catalog is a table of rows keyed by the MD5 hash of the full path, and knows its parent
  catalog. The SQL statements and \<open>GetDirent\<close> live in catalog_sql.cc, which is not among
  the sources: each row is kept as its path hash, the hash of its parent directory, and the
  entry that \<open>GetDirent\<close> builds from it. \<open>IsRoot()\<close> is declared in catalog.h (not among
  the sources either) and kept as a flag of its own next to the \<open>parent_\<close> pointer.
\<close>

type_synonym Md5 = "128 word"

record catalog_row =
  md5path :: Md5
  parent_md5path :: Md5
  row_dirent :: DirectoryEntry

datatype Catalog =
  Catalog (catalog_rows: "catalog_row list") (IsRoot: bool) (catalog_parent: "Catalog option")

text \<open>
  \<open>LookupMd5Path\<close> binds the hash, fetches the row if there is one, and passes the entry
  through \<open>FixTransitionPoint\<close>, which for an entry flagged as nested catalog root in a
  catalog that is not a root asks the parent catalog for the same hash and takes over its
  inode. \<open>assert(retval)\<close> aborts when the parent has no such entry; a missing parent would
  be a null pointer.
\<close>

fun LookupMd5Path :: "Catalog \<Rightarrow> Md5 \<Rightarrow> DirectoryEntry option result"
  and FixTransitionPoint :: "Catalog \<Rightarrow> Md5 \<Rightarrow> DirectoryEntry \<Rightarrow> DirectoryEntry result" where
  "LookupMd5Path (Catalog rows is_root par) md5 =
     (case find (\<lambda>r. md5path r = md5) rows of
        None \<Rightarrow> Inr None
      | Some r \<Rightarrow>
          (case FixTransitionPoint (Catalog rows is_root par) md5 (row_dirent r) of
             Inl e \<Rightarrow> Inl e
           | Inr d \<Rightarrow> Inr (Some d)))"
| "FixTransitionPoint (Catalog rows is_root None) md5 d =
     (if IsNestedCatalogRoot d \<and> \<not> is_root then Inl UndefinedBehaviour else Inr d)"
| "FixTransitionPoint (Catalog rows is_root (Some p)) md5 d =
     (if IsNestedCatalogRoot d \<and> \<not> is_root then
        (case LookupMd5Path p md5 of
           Inl e \<Rightarrow> Inl e
         | Inr None \<Rightarrow> Inl AssertionFailed
         | Inr (Some parent_dirent) \<Rightarrow> Inr (d\<lparr> inode := inode parent_dirent \<rparr>))
      else Inr d)"

text \<open>
  The two listings fetch every row whose parent hash is the hash given, in table order, and
  pass each entry through \<open>FixTransitionPoint\<close> with that same hash. A \<open>StatEntry\<close> is
  reduced to the name and the inode number of its \<open>struct stat\<close>.
\<close>

fun fix_all :: "Catalog \<Rightarrow> Md5 \<Rightarrow> DirectoryEntry list \<Rightarrow> DirectoryEntry list result" where
  "fix_all c md5 [] = Inr []"
| "fix_all c md5 (d # ds) =
     (case FixTransitionPoint c md5 d of
        Inl e \<Rightarrow> Inl e
      | Inr d' \<Rightarrow> (case fix_all c md5 ds of Inl e \<Rightarrow> Inl e | Inr ds' \<Rightarrow> Inr (d' # ds')))"

definition ListingMd5Path :: "Catalog \<Rightarrow> Md5 \<Rightarrow> DirectoryEntry list result" where
  "ListingMd5Path c md5 =
     fix_all c md5 (map row_dirent (filter (\<lambda>r. parent_md5path r = md5) (catalog_rows c)))"

record StatEntry =
  entry_name :: string
  st_ino :: inode_t

definition ListingMd5PathStat :: "Catalog \<Rightarrow> Md5 \<Rightarrow> StatEntry list result" where
  "ListingMd5PathStat c md5 =
     (case ListingMd5Path c md5 of
        Inl e \<Rightarrow> Inl e
      | Inr ds \<Rightarrow> Inr (map (\<lambda>d. \<lparr> entry_name = name d, st_ino = inode d \<rparr>) ds))"

text \<open>
  Concrete catalogs: a parent that records the mount point \<open>/sw\<close> (hash 17) under inode
  1000 and the directory \<open>/\<close> (hash 1) under inode 999, a nested catalog attached to it
  whose own root entry for \<open>/sw\<close> carries the nested-root flag and inode 5, and the same
  nested catalog opened on its own, without a parent.
\<close>

definition mountpoint_dirent :: DirectoryEntry where
  "mountpoint_dirent =
     \<lparr> inode = 1000, name = ''sw'', checksum = \<lparr> IsNull = True, ToString = [] \<rparr>,
       IsNestedCatalogRoot = False, IsChunkedFile = False, IsDirectory = True, IsLink = False \<rparr>"

definition nested_root_dirent :: DirectoryEntry where
  "nested_root_dirent = mountpoint_dirent\<lparr> inode := 5, IsNestedCatalogRoot := True \<rparr>"

definition parent_catalog :: Catalog where
  "parent_catalog =
     Catalog [\<lparr> md5path = 1, parent_md5path = 0,
                 row_dirent = mountpoint_dirent\<lparr> inode := 999, name := [] \<rparr> \<rparr>,
              \<lparr> md5path = 17, parent_md5path = 1, row_dirent = mountpoint_dirent \<rparr>]
       True None"

definition nested_rows :: "catalog_row list" where
  "nested_rows = [\<lparr> md5path = 17, parent_md5path = 1, row_dirent = nested_root_dirent \<rparr>]"

definition nested_catalog :: Catalog where
  "nested_catalog = Catalog nested_rows False (Some parent_catalog)"

definition freely_attached_catalog :: Catalog where
  "freely_attached_catalog = Catalog nested_rows True None"

section \<open>The tiered cache manager (cache_tiered.cc)\<close>

text \<open>
  \<open>BlessedObject\<close> carries the content hash (\<open>id\<close>) and the object information
  (\<open>info\<close>, kept as its description). The two layers are instances of the abstract class
  \<open>CacheManager\<close>, declared in cache.h (not among the sources): a layer is the record of
  its virtual methods over a state of its own. The transaction context, a block of
  \<open>SizeOfTxn()\<close> bytes that the caller allocates and the layer fills, is part of that
  state. \<open>Pread\<close> returns its result and the bytes it stored into the buffer.
\<close>

record BlessedObject =
  object_id :: hash_Any
  object_info :: string

record 's CacheManager =
  Open :: "BlessedObject \<Rightarrow> 's \<Rightarrow> int \<times> 's"
  GetSize :: "int \<Rightarrow> 's \<Rightarrow> int \<times> 's"
  Close :: "int \<Rightarrow> 's \<Rightarrow> int \<times> 's"
  Pread :: "int \<Rightarrow> nat \<Rightarrow> nat \<Rightarrow> 's \<Rightarrow> (int \<times> byte list) \<times> 's"
  SizeOfTxn :: "'s \<Rightarrow> nat"
  StartTxn :: "hash_Any \<Rightarrow> nat \<Rightarrow> 's \<Rightarrow> int \<times> 's"
  CtrlTxn :: "string \<Rightarrow> int \<Rightarrow> 's \<Rightarrow> 's"
  Write :: "byte list \<Rightarrow> nat \<Rightarrow> 's \<Rightarrow> int \<times> 's"
  AbortTxn :: "'s \<Rightarrow> int \<times> 's"
  OpenFromTxn :: "'s \<Rightarrow> int \<times> 's"
  CommitTxn :: "'s \<Rightarrow> int \<times> 's"

text \<open>
  What the copy gives up with: close the descriptor of the lower layer and abort the
  transaction of the upper layer.
\<close>

definition close_and_abort ::
  "'u CacheManager \<Rightarrow> 'l CacheManager \<Rightarrow> int \<Rightarrow> 'u \<Rightarrow> 'l \<Rightarrow> 'u \<times> 'l" where
  "close_and_abort upper lower fd2 su sl =
     (snd (AbortTxn upper su), snd (Close lower fd2 sl))"

text \<open>
  The loop \<open>while (remaining > 0)\<close>. \<open>kCopyBufferSize\<close> is a constant of cache_tiered.h
  (not among the sources) and a parameter here; with a buffer size of zero the loop would
  never end, so it is a partial function. The result is whether all bytes were copied, and
  the states of the two layers; when it is \<open>False\<close>, the descriptor has been closed and the
  transaction aborted.
\<close>

partial_function (option) copy_loop ::
  "'u CacheManager \<Rightarrow> 'l CacheManager \<Rightarrow> nat \<Rightarrow> int \<Rightarrow> nat \<Rightarrow> nat \<Rightarrow> byte list \<Rightarrow> 'u \<Rightarrow> 'l
     \<Rightarrow> (bool \<times> 'u \<times> 'l) option" where
  "copy_loop upper lower kCopyBufferSize fd2 remaining offs m_buffer su sl =
     (if remaining > 0 then
        (let nbytes = (if remaining > kCopyBufferSize then kCopyBufferSize else remaining) in
         case Pread lower fd2 nbytes offs sl of
           ((res, stored), sl1) \<Rightarrow>
             if res < 0 \<or> res \<noteq> int nbytes
             then (case close_and_abort upper lower fd2 su sl1 of
                     (su', sl') \<Rightarrow> Some (False, su', sl'))
             else
               (case Write upper (stored @ drop (length stored) m_buffer) nbytes su of
                  (res2, su1) \<Rightarrow>
                    if res2 < 0
                    then (case close_and_abort upper lower fd2 su1 sl1 of
                            (su', sl') \<Rightarrow> Some (False, su', sl'))
                    else copy_loop upper lower kCopyBufferSize fd2 (remaining - nbytes)
                           (offs + nbytes) (stored @ drop (length stored) m_buffer) su1 sl1))
      else Some (True, su, sl))"

text \<open>
  \<open>TieredCacheManager::Open\<close>: the value returned and the states the two layers are left
  in; \<open>None\<close> when the copy loop does not end.
\<close>

definition TieredCacheManager_Open ::
  "'u CacheManager \<Rightarrow> 'l CacheManager \<Rightarrow> nat \<Rightarrow> BlessedObject \<Rightarrow> 'u \<Rightarrow> 'l
     \<Rightarrow> (int \<times> 'u \<times> 'l) option" where
  "TieredCacheManager_Open upper lower kCopyBufferSize obj su sl =
     (case Open upper obj su of
        (fd0, su1) \<Rightarrow>
          if fd0 \<ge> 0 \<or> fd0 \<noteq> - ENOENT then Some (fd0, su1, sl)
          else
            (case Open lower obj sl of
               (fd2, sl1) \<Rightarrow>
                 if fd2 < 0 then Some (fd0, su1, sl1)
                 else
                   (case GetSize lower fd2 sl1 of
                      (sz, sl2) \<Rightarrow>
                        if sz < 0 then Some (fd0, su1, snd (Close lower fd2 sl2))
                        else
                          (case StartTxn upper (object_id obj) (nat sz) su1 of
                             (st, su2) \<Rightarrow>
                               if st < 0 then Some (fd0, su2, snd (Close lower fd2 sl2))
                               else
                                 (case copy_loop upper lower kCopyBufferSize fd2 (nat sz) 0 []
                                         (CtrlTxn upper (object_info obj) 0 su2) sl2 of
                                    None \<Rightarrow> None
                                  | Some (False, su3, sl3) \<Rightarrow> Some (fd0, su3, sl3)
                                  | Some (True, su3, sl3) \<Rightarrow>
                                      (case OpenFromTxn upper su3 of
                                         (fd_return, su4) \<Rightarrow>
                                           if fd_return < 0
                                           then Some (fd0, snd (AbortTxn upper su4),
                                                      snd (Close lower fd2 sl3))
                                           else
                                             (case CommitTxn upper su4 of
                                                (c, su5) \<Rightarrow>
                                                  if c < 0
                                                  then Some (fd0, snd (Close upper fd_return su5),
                                                             snd (Close lower fd2 sl3))
                                                  else Some (fd_return, su5,
                                                             snd (Close lower fd2 sl3)))))))))"

text \<open>
  The copy as the specification words it: the content is streamed from the lower to the
  upper layer in fixed-size buffers. An object of \<open>sz\<close> bytes is cut at the multiples of
  the buffer size \<open>k\<close>; each piece is given by its offset and its length, which is \<open>k\<close>
  except for a shorter last piece.
\<close>

definition copy_buffers :: "nat \<Rightarrow> nat \<Rightarrow> (nat \<times> nat) list" where
  "copy_buffers k sz = map (\<lambda>i. (i * k, min k (sz - i * k))) [0 ..< (sz + k - 1) div k]"

text \<open>
  The pieces are streamed in order: each is read from the lower layer at its offset and
  written to the transaction of the upper layer. The first piece whose read fails or comes
  back short, or whose write fails, ends the copy: the lower descriptor is closed, the
  transaction aborted, and the result is \<open>False\<close>.
\<close>

fun stream_buffers ::
  "'u CacheManager \<Rightarrow> 'l CacheManager \<Rightarrow> int \<Rightarrow> (nat \<times> nat) list \<Rightarrow> byte list \<Rightarrow> 'u \<Rightarrow> 'l
     \<Rightarrow> bool \<times> 'u \<times> 'l" where
  "stream_buffers upper lower fd2 [] m_buffer su sl = (True, su, sl)"
| "stream_buffers upper lower fd2 ((offs, nbytes) # rest) m_buffer su sl =
     (case Pread lower fd2 nbytes offs sl of
        ((res, stored), sl1) \<Rightarrow>
          if res < 0 \<or> res \<noteq> int nbytes
          then (False, close_and_abort upper lower fd2 su sl1)
          else
            (case Write upper (stored @ drop (length stored) m_buffer) nbytes su of
               (res2, su1) \<Rightarrow>
                 if res2 < 0
                 then (False, close_and_abort upper lower fd2 su1 sl1)
                 else stream_buffers upper lower fd2 rest
                        (stored @ drop (length stored) m_buffer) su1 sl1))"

text \<open>
  What the two layers do, as far as the copy depends on it. The lower layer reads from the
  descriptor the bytes of an object, in every state where \<open>P\<close> holds, and keeps \<open>P\<close>. A
  write that the upper layer accepts appends the first \<open>n\<close> bytes of the buffer to what the
  transaction holds (\<open>written\<close>). The upper layer accepts every write in a state where
  \<open>Q\<close> holds, and keeps \<open>Q\<close>; or it refuses every write.
\<close>

definition reads_content :: "'l CacheManager \<Rightarrow> int \<Rightarrow> byte list \<Rightarrow> ('l \<Rightarrow> bool) \<Rightarrow> bool" where
  "reads_content lower fd2 bytes P =
     (\<forall>s n off. P s \<longrightarrow>
        (case Pread lower fd2 n off s of
           ((res, stored), s') \<Rightarrow>
             stored = take n (drop off bytes) \<and> res = int (length stored) \<and> P s'))"

definition appends_writes :: "'u CacheManager \<Rightarrow> ('u \<Rightarrow> byte list) \<Rightarrow> bool" where
  "appends_writes upper written =
     (\<forall>s buf n. case Write upper buf n s of
                  (res, s') \<Rightarrow> 0 \<le> res \<longrightarrow> written s' = written s @ take n buf)"

definition accepts_writes :: "'u CacheManager \<Rightarrow> ('u \<Rightarrow> bool) \<Rightarrow> bool" where
  "accepts_writes upper Q =
     (\<forall>s buf n. Q s \<longrightarrow> (case Write upper buf n s of (res, s') \<Rightarrow> 0 \<le> res \<and> Q s'))"

definition writes_refused :: "'u CacheManager \<Rightarrow> bool" where
  "writes_refused upper = (\<forall>s buf n. fst (Write upper buf n s) < 0)"

text \<open>
  A cache layer in memory, for concrete instances: the objects it holds under the printed
  form of their hash, its open descriptors with the bytes behind them, and the running
  transaction (hash, announced size, bytes written so far).
\<close>

record mem_cache =
  objects :: "(string \<times> byte list) list"
  descriptors :: "(int \<times> byte list) list"
  transaction :: "(string \<times> nat \<times> byte list) option"

definition mem_layer :: "mem_cache CacheManager" where
  "mem_layer =
     \<lparr> Open = (\<lambda>obj s.
         case map_of (objects s) (ToString (object_id obj)) of
           None \<Rightarrow> (- ENOENT, s)
         | Some b \<Rightarrow> (3 + int (length (descriptors s)),
                      s\<lparr> descriptors := (3 + int (length (descriptors s)), b) # descriptors s \<rparr>)),
       GetSize = (\<lambda>d s.
         case map_of (descriptors s) d of
           None \<Rightarrow> (- EBADF, s)
         | Some b \<Rightarrow> (int (length b), s)),
       Close = (\<lambda>d s. (0, s\<lparr> descriptors := filter (\<lambda>p. fst p \<noteq> d) (descriptors s) \<rparr>)),
       Pread = (\<lambda>d n off s.
         case map_of (descriptors s) d of
           None \<Rightarrow> ((- EBADF, []), s)
         | Some b \<Rightarrow> ((int (length (take n (drop off b))), take n (drop off b)), s)),
       SizeOfTxn = (\<lambda>s. 64),
       StartTxn = (\<lambda>h n s. (0, s\<lparr> transaction := Some (ToString h, n, []) \<rparr>)),
       CtrlTxn = (\<lambda>info fl s. s),
       Write = (\<lambda>buf n s.
         case transaction s of
           None \<Rightarrow> (- EBADF, s)
         | Some (h, sz, w) \<Rightarrow> (int n, s\<lparr> transaction := Some (h, sz, w @ take n buf) \<rparr>)),
       AbortTxn = (\<lambda>s. (0, s\<lparr> transaction := None \<rparr>)),
       OpenFromTxn = (\<lambda>s.
         case transaction s of
           None \<Rightarrow> (- EBADF, s)
         | Some (h, sz, w) \<Rightarrow> (3 + int (length (descriptors s)),
                      s\<lparr> descriptors := (3 + int (length (descriptors s)), w) # descriptors s \<rparr>)),
       CommitTxn = (\<lambda>s.
         case transaction s of
           None \<Rightarrow> (- EBADF, s)
         | Some (h, sz, w) \<Rightarrow> (0, s\<lparr> objects := (h, w) # objects s, transaction := None \<rparr>)) \<rparr>"

definition sample_object :: BlessedObject where
  "sample_object = \<lparr> object_id = \<lparr> IsNull = False, ToString = ''c0ffee'' \<rparr>,
                     object_info = ''/dir/file'' \<rparr>"

definition empty_cache :: mem_cache where
  "empty_cache = \<lparr> objects = [], descriptors = [], transaction = None \<rparr>"

definition lower_with_object :: mem_cache where
  "lower_with_object = empty_cache\<lparr> objects := [(''c0ffee'', [1, 2, 3, 4, 5])] \<rparr>"

text \<open>
  For the in-memory layers: the bytes of the sample object, the states in which descriptor 3
  reads them, what the running transaction holds, whether a transaction is running, and a
  layer that refuses every write with \<open>-EIO\<close>.
\<close>

definition sample_bytes :: "byte list" where
  "sample_bytes = [1, 2, 3, 4, 5]"

definition holds_sample :: "mem_cache \<Rightarrow> bool" where
  "holds_sample s = (map_of (descriptors s) 3 = Some sample_bytes)"

definition txn_written :: "mem_cache \<Rightarrow> byte list" where
  "txn_written s = (case transaction s of None \<Rightarrow> [] | Some (h, n, w) \<Rightarrow> w)"

definition txn_open :: "mem_cache \<Rightarrow> bool" where
  "txn_open s = (transaction s \<noteq> None)"

definition refusing_layer :: "mem_cache CacheManager" where
  "refusing_layer = mem_layer\<lparr> Write := (\<lambda>buf n s. (- EIO, s)) \<rparr>"

section \<open>The remount fence under interleaving (cvmfs.cc, class RemountFence)\<close>

text \<open>
  Several threads run callbacks at once. Every access to the two members of the fence is
  one atomic operation (\<open>atomic_read32\<close>, \<open>atomic_inc64\<close>, \<open>atomic_dec64\<close>,
  \<open>atomic_cas32\<close>, \<open>atomic_read64\<close>), and between two of them any other thread may run.
  A reader thread is outside the fence, or has left the \<open>while\<close> loop of \<open>Enter\<close> and not
  yet incremented the counter, or is inside its critical section. The committer (the thread
  that runs \<open>RemountFinish\<close>; \<open>reload_critical_section_\<close> admits one at a time) is idle,
  or has set the flag and waits in the loop of \<open>Block\<close>, or has returned from \<open>Block\<close>
  and not yet called \<open>Unblock\<close>.
\<close>

datatype reader_pc = ReaderOutside | ReaderPassedCheck | ReaderInside

datatype committer_pc = CommitterIdle | CommitterWaiting | CommitterHolding

record fence_system =
  fence :: RemountFence
  readers :: "reader_pc list"
  committer :: committer_pc

text \<open>
  One atomic step of reader \<open>i\<close>: test the flag in \<open>Enter\<close> (and sleep, to test again,
  while it is set), increment the counter, or decrement it in \<open>Leave\<close>.
\<close>

definition reader_step :: "nat \<Rightarrow> fence_system \<Rightarrow> fence_system" where
  "reader_step i s =
     (if i \<ge> length (readers s) then s
      else
        case readers s ! i of
          ReaderOutside \<Rightarrow>
            if blocking (fence s) \<noteq> 0 then s
            else s\<lparr> readers := (readers s)[i := ReaderPassedCheck] \<rparr>
        | ReaderPassedCheck \<Rightarrow>
            s\<lparr> fence := (fence s)\<lparr> counter := counter (fence s) + 1 \<rparr>,
               readers := (readers s)[i := ReaderInside] \<rparr>
        | ReaderInside \<Rightarrow>
            s\<lparr> fence := (fence s)\<lparr> counter := counter (fence s) - 1 \<rparr>,
               readers := (readers s)[i := ReaderOutside] \<rparr>)"

text \<open>
  One atomic step of the committer: set the flag in \<open>Block\<close>, test the counter (and sleep,
  to test again, while it is positive), or clear the flag in \<open>Unblock\<close>.
\<close>

definition committer_step :: "fence_system \<Rightarrow> fence_system" where
  "committer_step s =
     (case committer s of
        CommitterIdle \<Rightarrow>
          s\<lparr> fence := (fence s)\<lparr> blocking := snd (atomic_cas32 (blocking (fence s)) 0 1) \<rparr>,
             committer := CommitterWaiting \<rparr>
      | CommitterWaiting \<Rightarrow>
          if sint (counter (fence s)) > 0 then s else s\<lparr> committer := CommitterHolding \<rparr>
      | CommitterHolding \<Rightarrow>
          s\<lparr> fence := (fence s)\<lparr> blocking := snd (atomic_cas32 (blocking (fence s)) 1 0) \<rparr>,
             committer := CommitterIdle \<rparr>)"

text \<open>A schedule says which thread takes the next atomic step.\<close>

datatype scheduled = ReaderStep nat | CommitterStep

fun run_schedule :: "scheduled list \<Rightarrow> fence_system \<Rightarrow> fence_system" where
  "run_schedule [] s = s"
| "run_schedule (ReaderStep i # rest) s = run_schedule rest (reader_step i s)"
| "run_schedule (CommitterStep # rest) s = run_schedule rest (committer_step s)"

text \<open>The state after the constructor of the fence, with \<open>n\<close> reader threads.\<close>

definition fence_init :: "nat \<Rightarrow> fence_system" where
  "fence_init n =
     \<lparr> fence = \<lparr> counter = 0, blocking = 0 \<rparr>,
       readers = replicate n ReaderOutside,
       committer = CommitterIdle \<rparr>"

definition readers_inside :: "fence_system \<Rightarrow> nat" where
  "readers_inside s = length (filter (\<lambda>p. p = ReaderInside) (readers s))"

section \<open>Lemmas shared by the theorems on the callbacks\<close>

lemma fence_Enter_unblocked:
  "blocking (remount_fence g) = 0 \<Longrightarrow>
   fence_Enter g = Inr (g\<lparr> remount_fence := (remount_fence g)\<lparr> counter := counter (remount_fence g) + 1 \<rparr> \<rparr>)"
  by (simp add: fence_Enter_def Enter_def)


section \<open>Theorems: directory handles\<close>

lemma unat_ne_max:
  assumes "(h::64 word) \<noteq> - 1"
  shows "unat h < 2 ^ 64 - 1"
proof -
  have "unat h \<noteq> unat (- 1 :: 64 word)"
    using assms by (simp add: word_unat_eq_iff)
  moreover have "unat (- 1 :: 64 word) = 2 ^ 64 - 1"
    by (simp add: unsigned_minus_1_eq_mask mask_eq_exp_minus_1)
  moreover have "unat h < 2 ^ 64"
    using unsigned_less [of h, where ?'a = nat] by simp
  ultimately show ?thesis by simp
qed

lemma word_succ_unat: "(h::64 word) \<noteq> - 1 \<Longrightarrow> unat (h + 1) = unat h + 1"
  using unat_ne_max [of h] by (simp add: unat_word_ariths)

lemma restore_next_handle_ge:
  "no_empty_key hs \<Longrightarrow> unat nxt \<le> unat (restore_next_handle hs nxt)"
proof (induction hs arbitrary: nxt)
  case Nil
  then show ?case by simp
next
  case (Cons p hs)
  obtain h l where p: "p = (h, l)" by (cases p)
  have hne: "h \<noteq> - 1" using Cons.prems p by (simp add: no_empty_key_def)
  have rest: "no_empty_key hs" using Cons.prems by (simp add: no_empty_key_def)
  let ?n = "if h \<ge> nxt then h + 1 else nxt"
  have "unat nxt \<le> unat ?n"
    using word_succ_unat [OF hne] by (simp add: word_le_nat_alt)
  also have "\<dots> \<le> unat (restore_next_handle hs ?n)"
    using Cons.IH [OF rest] .
  finally show ?case using p by simp
qed

lemma restore_next_handle_gt:
  "no_empty_key hs \<Longrightarrow> (h, l) \<in> set hs \<Longrightarrow> h < restore_next_handle hs nxt"
proof (induction hs arbitrary: nxt)
  case Nil
  then show ?case by simp
next
  case (Cons p hs)
  obtain k m where p: "p = (k, m)" by (cases p)
  have kne: "k \<noteq> - 1" using Cons.prems p by (simp add: no_empty_key_def)
  have rest: "no_empty_key hs" using Cons.prems by (simp add: no_empty_key_def)
  let ?n = "if k \<ge> nxt then k + 1 else nxt"
  show ?case
  proof (cases "(h, l) \<in> set hs")
    case True
    then show ?thesis using Cons.IH [OF rest True] p by simp
  next
    case False
    then have hk: "h = k" using Cons.prems(2) p by simp
    have "unat k < unat ?n"
      using word_succ_unat [OF kne] by (simp add: word_le_nat_alt)
    also have "\<dots> \<le> unat (restore_next_handle hs ?n)"
      using restore_next_handle_ge [OF rest] .
    finally show ?thesis using hk p by (simp add: word_less_nat_alt)
  qed
qed

lemma RestoreState_OpenDirs_below:
  "no_empty_key hs \<Longrightarrow> handles_below (RestoreState_OpenDirs hs st)"
  by (auto simp: handles_below_def RestoreState_OpenDirs_def list_all_iff
           intro: restore_next_handle_gt)

lemma RestoreState_below:
  "saved_states_ok states \<Longrightarrow> handles_below st \<Longrightarrow> handles_below (RestoreState states st)"
proof (induction states st rule: RestoreState.induct)
  case (2 saved_handles rest g)
  then show ?case by (simp add: RestoreState_OpenDirs_below)
qed (simp_all add: handles_below_def RestoreState_InodeGeneration_def)

lemma opendir_run_issued_ge:
  "unat (next_directory_handle st) + length ls \<le> 2 ^ 64 \<Longrightarrow>
   hid \<in> set (fst (opendir_run ls st)) \<Longrightarrow> next_directory_handle st \<le> hid"
proof (induction ls arbitrary: st)
  case Nil
  then show ?case by simp
next
  case (Cons l ls)
  let ?st' = "snd (opendir_register l st)"
  have issued: "fst (opendir_run (l # ls) st) = next_directory_handle st # fst (opendir_run ls ?st')"
    by (simp add: opendir_register_def split: prod.splits)
  show ?case
  proof (cases "hid = next_directory_handle st")
    case True
    then show ?thesis by simp
  next
    case False
    have rest: "hid \<in> set (fst (opendir_run ls ?st'))"
      using Cons.prems(2) issued False by simp
    then have "ls \<noteq> []" by auto
    then have "unat (next_directory_handle st) + 1 < 2 ^ 64"
      using Cons.prems(1) by (cases ls) auto
    then have ne: "next_directory_handle st \<noteq> - 1"
      by (auto simp: unsigned_minus_1_eq_mask mask_eq_exp_minus_1)
    have nxt: "unat (next_directory_handle ?st') = unat (next_directory_handle st) + 1"
      using word_succ_unat [OF ne] by (simp add: opendir_register_def)
    have "unat (next_directory_handle ?st') + length ls \<le> 2 ^ 64"
      using Cons.prems(1) nxt by simp
    then have "next_directory_handle ?st' \<le> hid"
      using Cons.IH rest by blast
    then show ?thesis using nxt by (simp add: word_le_nat_alt)
  qed
qed

text \<open>
  C10. After \<open>RestoreState\<close> has installed saved directory-handle tables (whose keys, as
  keys of a dense hash map with empty key \<open>(uint64_t)(-1)\<close>, are never that value),
  \<open>next_directory_handle_\<close> is strictly greater than every handle of the live table, and no
  handle issued by the opendir calls that follow is a handle of the restored table, as long
  as the 64-bit counter does not wrap around.
\<close>

theorem RestoreState_handles_never_reused:
  assumes "saved_states_ok states"
    and "handles_below st"
    and "unat (next_directory_handle (RestoreState states st)) + length ls \<le> 2 ^ 64"
  shows "handles_below (RestoreState states st) \<and>
         set (fst (opendir_run ls (RestoreState states st)))
           \<inter> handle_ids (directory_handles (RestoreState states st)) = {}"
proof -
  let ?st = "RestoreState states st"
  have below: "handles_below ?st"
    using assms(1,2) by (rule RestoreState_below)
  have "hid \<notin> handle_ids (directory_handles ?st)"
    if "hid \<in> set (fst (opendir_run ls ?st))" for hid
  proof
    assume "hid \<in> handle_ids (directory_handles ?st)"
    then obtain l where "(hid, l) \<in> set (directory_handles ?st)"
      by (auto simp: handle_ids_def)
    then have "hid < next_directory_handle ?st"
      using below by (auto simp: handles_below_def list_all_iff)
    moreover have "next_directory_handle ?st \<le> hid"
      using opendir_run_issued_ge [OF assms(3) that] .
    ultimately show False by simp
  qed
  then show ?thesis using below by auto
qed

theorem RestoreState_handles_never_reused_witness:
  "saved_states_ok [StateOpenFilesCounter 3, StateOpenDirs
       [(5, \<lparr>buffer = [], listing_size = 0, listing_capacity = 0\<rparr>),
        (2, \<lparr>buffer = [], listing_size = 0, listing_capacity = 0\<rparr>)]] \<and>
   handles_below fresh_globals \<and>
   next_directory_handle (RestoreState [StateOpenFilesCounter 3, StateOpenDirs
       [(5, \<lparr>buffer = [], listing_size = 0, listing_capacity = 0\<rparr>),
        (2, \<lparr>buffer = [], listing_size = 0, listing_capacity = 0\<rparr>)]] fresh_globals) = 6 \<and>
   fst (opendir_run [\<lparr>buffer = [], listing_size = 0, listing_capacity = 0\<rparr>,
                     \<lparr>buffer = [], listing_size = 0, listing_capacity = 0\<rparr>]
        (RestoreState [StateOpenFilesCounter 3, StateOpenDirs
       [(5, \<lparr>buffer = [], listing_size = 0, listing_capacity = 0\<rparr>),
        (2, \<lparr>buffer = [], listing_size = 0, listing_capacity = 0\<rparr>)]] fresh_globals)) = [6, 7] \<and>
   set (fst (opendir_run [\<lparr>buffer = [], listing_size = 0, listing_capacity = 0\<rparr>,
                     \<lparr>buffer = [], listing_size = 0, listing_capacity = 0\<rparr>]
        (RestoreState [StateOpenFilesCounter 3, StateOpenDirs
       [(5, \<lparr>buffer = [], listing_size = 0, listing_capacity = 0\<rparr>),
        (2, \<lparr>buffer = [], listing_size = 0, listing_capacity = 0\<rparr>)]] fresh_globals)))
     \<inter> handle_ids (directory_handles (RestoreState [StateOpenFilesCounter 3, StateOpenDirs
       [(5, \<lparr>buffer = [], listing_size = 0, listing_capacity = 0\<rparr>),
        (2, \<lparr>buffer = [], listing_size = 0, listing_capacity = 0\<rparr>)]] fresh_globals)) = {}"
proof -
  let ?l = "\<lparr>buffer = [], listing_size = 0, listing_capacity = 0\<rparr>"
  let ?states = "[StateOpenFilesCounter 3, StateOpenDirs [(5, ?l), (2, ?l)]]"
  have h1: "saved_states_ok ?states"
    by (simp add: no_empty_key_def)
  have h2: "handles_below fresh_globals"
    by (simp add: handles_below_def fresh_globals_def)
  have nxt: "next_directory_handle (RestoreState ?states fresh_globals) = 6"
    by (simp add: RestoreState_OpenDirs_def fresh_globals_def)
  have h3: "unat (next_directory_handle (RestoreState ?states fresh_globals)) + length [?l, ?l]
              \<le> 2 ^ 64"
    unfolding nxt by simp
  have run: "fst (opendir_run [?l, ?l] (RestoreState ?states fresh_globals)) = [6, 7]"
    by (simp add: RestoreState_OpenDirs_def opendir_register_def fresh_globals_def)
  show ?thesis
    using h1 h2 nxt run RestoreState_handles_never_reused [OF h1 h2 h3] by simp
qed

section \<open>Theorems: extended attributes\<close>



section \<open>Theorems: lookup, forget and the inode tracker\<close>

lemma refcount_VfsGet:
  "refcount (VfsGet t i p) j = (if j = i then refcount t i + 1 else refcount t j)"
  by (auto simp: refcount_def VfsGet_def split: option.splits)

lemma refcount_VfsPut:
  "refcount (VfsPut t i n) j = (if j = i then refcount t i - n else refcount t j)"
  by (auto simp: refcount_def VfsPut_def split: option.splits)

lemma RemountFinish_apply_frame:
  "RemountFinish_apply m clk g = Inr g' \<Longrightarrow>
   inode_tracker g' = inode_tracker g \<and> nfs_maps g' = nfs_maps g"
  by (auto simp: RemountFinish_apply_def Let_def split: sum.splits prod.splits if_splits)

lemma RemountFinish_frame:
  "RemountFinish m clk g = Inr g' \<Longrightarrow>
   inode_tracker g' = inode_tracker g \<and> nfs_maps g' = nfs_maps g"
  by (auto simp: RemountFinish_def Let_def split: sum.splits if_splits
           dest!: RemountFinish_apply_frame)

lemma RemountStart_frame:
  "RemountStart m clk g = (r, g') \<Longrightarrow>
   inode_tracker g' = inode_tracker g \<and> nfs_maps g' = nfs_maps g"
  by (auto simp: RemountStart_def Let_def split: prod.splits if_splits)

lemma RemountCheck_frame:
  "RemountCheck m clk g = Inr g' \<Longrightarrow>
   inode_tracker g' = inode_tracker g \<and> nfs_maps g' = nfs_maps g"
  by (auto simp: RemountCheck_def Let_def split: sum.splits prod.splits if_splits
           dest!: RemountFinish_frame RemountStart_frame)

lemma fence_Enter_frame:
  "fence_Enter g = Inr g' \<Longrightarrow>
   inode_tracker g' = inode_tracker g \<and> nfs_maps g' = nfs_maps g \<and>
   catalog_manager g' = catalog_manager g"
  by (auto simp: fence_Enter_def split: sum.splits)

lemma cvmfs_lookup_effect:
  assumes "cvmfs_lookup m clk env g parent nm = Inr (r, g')"
  shows "nfs_maps g' = nfs_maps g \<and>
         r = (case lookup_outcome env of
                Some (d, path) \<Rightarrow> fuse_reply_entry (inode d)
              | None \<Rightarrow> fuse_reply_entry 0) \<and>
         inode_tracker g' =
           (case lookup_outcome env of
              Some (d, path) \<Rightarrow>
                if nfs_maps g then inode_tracker g else VfsGet (inode_tracker g) (inode d) path
            | None \<Rightarrow> inode_tracker g)"
proof -
  obtain g1 where c: "RemountCheck m clk (g\<lparr> num_fs_lookup := num_fs_lookup g + 1 \<rparr>) = Inr g1"
    using assms by (auto simp: cvmfs_lookup_def split: sum.splits)
  obtain g2 where e: "fence_Enter g1 = Inr g2"
    using assms c by (auto simp: cvmfs_lookup_def split: sum.splits)
  have f1: "inode_tracker g1 = inode_tracker g \<and> nfs_maps g1 = nfs_maps g"
    using RemountCheck_frame [OF c] by simp
  have f2: "inode_tracker g2 = inode_tracker g \<and> nfs_maps g2 = nfs_maps g"
    using fence_Enter_frame [OF e] f1 by simp
  show ?thesis
    using assms c e f2
    by (auto simp: cvmfs_lookup_def Let_def fence_Leave_def split: option.splits prod.splits)
qed

lemma cvmfs_forget_effect:
  assumes "cvmfs_forget m g ino n = Inr (r, g')"
  shows "nfs_maps g' = nfs_maps g \<and> r = fuse_reply_none \<and>
         inode_tracker g' =
           (if ino = FUSE_ROOT_ID \<or> nfs_maps g then inode_tracker g
            else VfsPut (inode_tracker g) (MangleInode m (catalog_manager g) ino) n)"
  using assms
  by (auto simp: cvmfs_forget_def Let_def fence_Leave_def fence_Enter_def
           split: sum.splits if_splits)

lemma cvmfs_forget_root:
  "cvmfs_forget m g FUSE_ROOT_ID n = Inr (fuse_reply_none, g\<lparr> num_fs_forget := num_fs_forget g + 1 \<rparr>)"
  by (simp add: cvmfs_forget_def)

lemma fs_step_balance:
  assumes step: "fs_step m c g = Inr (r, g')"
    and nfs: "\<not> nfs_maps g"
    and i: "i \<noteq> 0" "i \<noteq> FUSE_ROOT_ID"
    and cov: "forgets_covered m i [c] g"
  shows "\<not> nfs_maps g' \<and>
         int (refcount (inode_tracker g') i) =
           int (refcount (inode_tracker g) i) + kernel_refs i [(c, r)]"
proof (cases c)
  case (Lookup clk env parent nm)
  then have "cvmfs_lookup m clk env g parent nm = Inr (r, g')"
    using step by simp
  from cvmfs_lookup_effect [OF this] show ?thesis
    using nfs i Lookup by (auto simp: refcount_VfsGet split: option.splits)
next
  case (Forget j n)
  then have "cvmfs_forget m g j n = Inr (r, g')"
    using step by simp
  from cvmfs_forget_effect [OF this]
  have eff: "\<not> nfs_maps g'" "r = fuse_reply_none"
    "inode_tracker g' =
       (if j = FUSE_ROOT_ID then inode_tracker g
        else VfsPut (inode_tracker g) (MangleInode m (catalog_manager g) j) n)"
    using nfs by simp_all
  show ?thesis
  proof (cases "j = i")
    case True
    then have "MangleInode m (catalog_manager g) i = i" "n \<le> refcount (inode_tracker g) i"
      using cov Forget by simp_all
    moreover have "inode_tracker g' = VfsPut (inode_tracker g) (MangleInode m (catalog_manager g) i) n"
      using eff(3) True i(2) by simp
    ultimately show ?thesis
      using eff(1) True Forget by (simp add: refcount_VfsPut)
  next
    case False
    then have "j = FUSE_ROOT_ID \<or> MangleInode m (catalog_manager g) j \<noteq> i"
      using cov Forget by simp
    then have "refcount (inode_tracker g') i = refcount (inode_tracker g) i"
      using eff(3) by (auto simp: refcount_VfsPut)
    then show ?thesis
      using eff(1) False Forget by simp
  qed
qed

lemma tracker_refcount_balance:
  assumes "run_calls m calls g = Inr (replies, g')"
    and "\<not> nfs_maps g"
    and "i \<noteq> 0" and "i \<noteq> FUSE_ROOT_ID"
    and "forgets_covered m i calls g"
  shows "int (refcount (inode_tracker g') i) =
           int (refcount (inode_tracker g) i) + kernel_refs i (zip calls replies)"
  using assms
proof (induction calls arbitrary: g replies)
  case Nil
  then show ?case by simp
next
  case (Cons c cs)
  obtain r g1 where s: "fs_step m c g = Inr (r, g1)"
    using Cons.prems(1) by (auto split: sum.splits)
  obtain rs where rest: "run_calls m cs g1 = Inr (rs, g')" and reps: "replies = r # rs"
    using Cons.prems(1) s by (auto split: sum.splits)
  have cov1: "forgets_covered m i [c] g"
    using Cons.prems(5) s by (auto split: fs_call.splits)
  have cov2: "forgets_covered m i cs g1"
    using Cons.prems(5) s by simp
  have b1: "\<not> nfs_maps g1 \<and>
            int (refcount (inode_tracker g1) i) =
              int (refcount (inode_tracker g) i) + kernel_refs i [(c, r)]"
    using fs_step_balance [OF s Cons.prems(2) Cons.prems(3) Cons.prems(4) cov1] .
  have b2: "int (refcount (inode_tracker g') i) =
              int (refcount (inode_tracker g1) i) + kernel_refs i (zip cs rs)"
    using Cons.IH [OF rest _ Cons.prems(3) Cons.prems(4) cov2] b1 by simp
  show ?case using b1 b2 reps by (cases c) auto
qed

lemma fs_step_nfs:
  assumes "fs_step m c g = Inr (r, g')" and "nfs_maps g"
  shows "nfs_maps g' \<and> inode_tracker g' = inode_tracker g"
proof (cases c)
  case (Lookup clk env parent nm)
  then have "cvmfs_lookup m clk env g parent nm = Inr (r, g')"
    using assms(1) by simp
  from cvmfs_lookup_effect [OF this] show ?thesis
    using assms(2) by (auto split: option.splits)
next
  case (Forget j n)
  then have "cvmfs_forget m g j n = Inr (r, g')"
    using assms(1) by simp
  from cvmfs_forget_effect [OF this] show ?thesis
    using assms(2) by simp
qed

lemma tracker_untouched_nfs:
  assumes "run_calls m calls g = Inr (replies, g')" and "nfs_maps g"
  shows "inode_tracker g' = inode_tracker g"
  using assms
proof (induction calls arbitrary: g replies)
  case Nil
  then show ?case by simp
next
  case (Cons c cs)
  obtain r g1 where s: "fs_step m c g = Inr (r, g1)"
    using Cons.prems(1) by (auto split: sum.splits)
  obtain rs where rest: "run_calls m cs g1 = Inr (rs, g')"
    using Cons.prems(1) s by (auto split: sum.splits)
  have n1: "nfs_maps g1 \<and> inode_tracker g1 = inode_tracker g"
    using fs_step_nfs [OF s Cons.prems(2)] .
  show ?case using Cons.IH [OF rest] n1 by simp
qed

lemma cvmfs_forget_vfs_put:
  assumes "blocking (remount_fence g) = 0"
  shows "\<exists>g2. cvmfs_forget m g ino k = Inr (fuse_reply_none, g2) \<and>
           inode_tracker g2 =
             (if ino = FUSE_ROOT_ID \<or> nfs_maps g then inode_tracker g
              else VfsPut (inode_tracker g) (MangleInode m (catalog_manager g) ino) k)"
  using assms
  by (simp add: cvmfs_forget_def Let_def fence_Enter_unblocked fence_Leave_def)

text \<open>
  C7 (as amended). With the fence open, a \<open>forget(ino, k)\<close> returns and is answered
  without a reply body. Outside NFS mode and for \<open>ino \<noteq> FUSE_ROOT_ID\<close> it calls \<open>VfsPut\<close> on the tracker
  with the mangled inode and \<open>k\<close>, which lowers that inode's count by \<open>k\<close>; a forget of
  \<open>FUSE_ROOT_ID\<close>, and every forget in NFS mode, leaves the tracker as it is. Along every
  run of lookup and forget calls in NFS mode the tracker does not change. Along every run
  outside NFS mode, for an inode \<open>i\<close> other than 0 (the number a negative reply carries) and
  \<open>FUSE_ROOT_ID\<close>, if each forget of \<open>i\<close> finds \<open>i\<close> mangled to itself and asks for no
  more than the tracked count, and no forget of another number except \<open>FUSE_ROOT_ID\<close> is
  mangled to \<open>i\<close>, the tracked count of \<open>i\<close> changes by exactly the lookups that replied
  \<open>i\<close> minus the forgotten references.
\<close>

theorem forget_protocol:
  "(blocking (remount_fence g) = 0 \<longrightarrow>
      (\<exists>g2. cvmfs_forget m g ino k = Inr (fuse_reply_none, g2) \<and>
          inode_tracker g2 =
            (if ino = FUSE_ROOT_ID \<or> nfs_maps g then inode_tracker g
             else VfsPut (inode_tracker g) (MangleInode m (catalog_manager g) ino) k))) \<and>
   refcount (VfsPut (inode_tracker g) ino k) ino = refcount (inode_tracker g) ino - k \<and>
   (run_calls m calls g = Inr (replies, g') \<and> nfs_maps g
    \<longrightarrow> inode_tracker g' = inode_tracker g) \<and>
   (run_calls m calls g = Inr (replies, g') \<and> \<not> nfs_maps g \<and>
    i \<noteq> 0 \<and> i \<noteq> FUSE_ROOT_ID \<and> forgets_covered m i calls g
    \<longrightarrow> int (refcount (inode_tracker g') i) =
          int (refcount (inode_tracker g) i) + kernel_refs i (zip calls replies))"
  using tracker_refcount_balance [of m calls g replies g' i]
    tracker_untouched_nfs [of m calls g replies g']
    cvmfs_forget_vfs_put [of g m ino k]
  by (simp add: refcount_VfsPut)

lemmas frontend_eval =
  cvmfs_lookup_def cvmfs_forget_def RemountCheck_def RemountFinish_def fresh_globals_def
  failing_mgr_def sample_lookup_env_def dotdot_lookup_env_def dot_lookup_env_def
  sample_dirent_def nfs_globals_def
  atomic_cas32_def fence_Enter_def fence_Leave_def Enter_def Leave_def Let_def
  FUSE_ROOT_ID_def VfsGet_def VfsPut_def refcount_def

text \<open>
  Instances: two lookups of \<open>.\<close> in the root directory reply the root inode 256 and a
  \<open>forget(256, 1)\<close> follows, which leaves one reference tracked; the same run on a mount in
  NFS mode leaves the tracker empty.
\<close>

theorem forget_protocol_witness:
  "blocking (remount_fence fresh_globals) = 0 \<and>
   \<not> nfs_maps fresh_globals \<and> nfs_maps nfs_globals \<and>
   forgets_covered failing_mgr 256
     [Lookup sample_clock dot_lookup_env 256 ''.'',
      Lookup sample_clock dot_lookup_env 256 ''.'',
      Forget 256 1] fresh_globals \<and>
   final_refcount failing_mgr
     [Lookup sample_clock dot_lookup_env 256 ''.'',
      Lookup sample_clock dot_lookup_env 256 ''.'',
      Forget 256 1] fresh_globals 256
     = Some ([fuse_reply_entry 256, fuse_reply_entry 256, fuse_reply_none], 1) \<and>
   kernel_refs 256
     (zip [Lookup sample_clock dot_lookup_env 256 ''.'',
           Lookup sample_clock dot_lookup_env 256 ''.'',
           Forget 256 1]
          [fuse_reply_entry 256, fuse_reply_entry 256, fuse_reply_none]) = 1 \<and>
   final_refcount failing_mgr
     [Lookup sample_clock dot_lookup_env 256 ''.'',
      Lookup sample_clock dot_lookup_env 256 ''.'',
      Forget 256 1] nfs_globals 256
     = Some ([fuse_reply_entry 256, fuse_reply_entry 256, fuse_reply_none], 0)"
proof -
  let ?calls = "[Lookup sample_clock dot_lookup_env 256 ''.'',
                 Lookup sample_clock dot_lookup_env 256 ''.'',
                 Forget 256 1]"
  let ?rs = "[fuse_reply_entry 256, fuse_reply_entry 256, fuse_reply_none]"
  have "\<exists>g'. run_calls failing_mgr ?calls fresh_globals = Inr (?rs, g')"
    by (simp add: frontend_eval)
  then obtain g' where run: "run_calls failing_mgr ?calls fresh_globals = Inr (?rs, g')"
    by blast
  have "\<exists>g'. run_calls failing_mgr ?calls nfs_globals = Inr (?rs, g')"
    by (simp add: frontend_eval)
  then obtain g'' where run_nfs: "run_calls failing_mgr ?calls nfs_globals = Inr (?rs, g'')"
    by blast
  have h1: "blocking (remount_fence fresh_globals) = 0"
    by (simp add: fresh_globals_def)
  have h2: "\<not> nfs_maps fresh_globals"
    by (simp add: fresh_globals_def)
  have h2n: "nfs_maps nfs_globals"
    by (simp add: nfs_globals_def)
  have h3: "(256 :: inode_t) \<noteq> 0" by simp
  have h4: "(256 :: inode_t) \<noteq> FUSE_ROOT_ID" by (simp add: FUSE_ROOT_ID_def)
  have h6: "forgets_covered failing_mgr 256 ?calls fresh_globals"
    by (simp add: frontend_eval)
  have k: "kernel_refs 256 (zip ?calls ?rs) = 1"
    by simp
  have "int (refcount (inode_tracker g') 256) =
          int (refcount (inode_tracker fresh_globals) 256) + kernel_refs 256 (zip ?calls ?rs)"
    using forget_protocol [where g = fresh_globals and m = failing_mgr and calls = ?calls
            and replies = ?rs and g' = g' and i = 256] run h2 h3 h4 h6
    by blast
  then have "refcount (inode_tracker g') 256 = 1"
    unfolding k by (simp add: fresh_globals_def refcount_def)
  then have f: "final_refcount failing_mgr ?calls fresh_globals 256 = Some (?rs, 1)"
    using run by (simp add: final_refcount_def)
  have "inode_tracker g'' = inode_tracker nfs_globals"
    using forget_protocol [where g = nfs_globals and m = failing_mgr and calls = ?calls
            and replies = ?rs and g' = g''] run_nfs h2n
    by blast
  then have "refcount (inode_tracker g'') 256 = 0"
    by (simp add: nfs_globals_def fresh_globals_def refcount_def)
  then have fn: "final_refcount failing_mgr ?calls nfs_globals 256 = Some (?rs, 0)"
    using run_nfs by (simp add: final_refcount_def)
  show ?thesis
    using h1 h2 h2n h6 k f fn by blast
qed

text \<open>
  C7 as stated fails on the root: a lookup of \<open>..\<close> that replies inode 1 puts inode 1
  into the tracker with one reference; the matching \<open>forget(1, 1)\<close> returns early and
  never reaches \<open>VfsPut\<close>, so the tracker still counts 1 where the kernel holds 0.
\<close>

theorem forget_root_counterexample:
  "final_refcount failing_mgr
      [Lookup sample_clock dotdot_lookup_env 300 ''..'', Forget FUSE_ROOT_ID 1] fresh_globals 1
     = Some ([fuse_reply_entry 1, fuse_reply_none], 1) \<and>
   kernel_refs 1 (zip [Lookup sample_clock dotdot_lookup_env 300 ''..'', Forget FUSE_ROOT_ID 1]
                      [fuse_reply_entry 1, fuse_reply_none]) = 0"
  by (simp add: final_refcount_def frontend_eval)

section \<open>Theorems: the short-term TTL\<close>

lemma Block_no_readers:
  "sint (counter f) \<le> 0 \<Longrightarrow> Block f = Inr (f\<lparr> blocking := snd (atomic_cas32 (blocking f) 0 1) \<rparr>)"
  by (simp add: Block_def Let_def)

lemma GetEffectiveTTL_cong:
  "max_ttl g' = max_ttl g \<Longrightarrow> catalog_manager g' = catalog_manager g \<Longrightarrow>
   GetEffectiveTTL g' = GetEffectiveTTL g"
  by (simp add: GetEffectiveTTL_def GetMaxTTL_def)

lemma RemountFinish_apply_result:
  assumes "sint (counter (remount_fence g)) \<le> 0"
  shows "\<exists>g'. RemountFinish_apply m clk g = Inr g' \<and>
           catalog_manager g' = snd (Remount m False (catalog_manager g)) \<and>
           reload_critical_section g' = reload_critical_section g \<and>
           catalogs_expired g' = catalogs_expired g \<and>
           max_ttl g' = max_ttl g \<and> kcache_timeout g' = kcache_timeout g \<and>
           drainout_mode g' = snd (atomic_cas32 (drainout_mode g) 1 0) \<and>
           (if finish_failed m g
            then alarm g' = 180 \<and> catalogs_valid_until g' = time_finish_valid clk + 180
            else alarm g' = GetEffectiveTTL g' \<and>
                 catalogs_valid_until g' = time_finish_valid clk + uint (GetEffectiveTTL g'))"
proof -
  obtain retval mgr where rm: "Remount m False (catalog_manager g) = (retval, mgr)"
    by (metis surj_pair)
  have ff: "finish_failed m g = (retval = kLoadFail \<or> retval = kLoadNoSpace \<or> offline_mode mgr)"
    by (simp add: finish_failed_def rm)
  show ?thesis
  proof (cases "finish_failed m g")
    case True
    then have c: "retval = kLoadFail \<or> retval = kLoadNoSpace \<or> offline_mode mgr"
      using ff by simp
    show ?thesis
      using assms rm c True
      by (cases "has_inode_annotation g")
         (simp_all add: RemountFinish_apply_def Let_def Block_no_readers Pause_def Drop_def
                        kShortTermTTL_def)
  next
    case False
    then have c: "retval \<noteq> kLoadFail" "retval \<noteq> kLoadNoSpace" "\<not> offline_mode mgr"
      using ff by simp_all
    show ?thesis
      using assms rm c False
      by (cases "has_inode_annotation g")
         (simp_all add: RemountFinish_apply_def Let_def Block_no_readers Pause_def Drop_def
                        GetEffectiveTTL_def GetMaxTTL_def)
  qed
qed

lemma RemountFinish_result:
  assumes "finish_applies clk g \<longrightarrow> sint (counter (remount_fence g)) \<le> 0"
  shows "\<exists>g1. RemountFinish m clk g = Inr g1 \<and>
           catalog_manager g1 = manager_after_finish m clk g \<and>
           catalogs_expired g1 = catalogs_expired g \<and>
           max_ttl g1 = max_ttl g \<and> kcache_timeout g1 = kcache_timeout g \<and>
           drainout_mode g1 =
             (if finish_applies clk g then snd (atomic_cas32 (drainout_mode g) 1 0)
              else drainout_mode g) \<and>
           (if finish_applies clk g then
              (if finish_failed m g
               then alarm g1 = 180 \<and> catalogs_valid_until g1 = time_finish_valid clk + 180
               else alarm g1 = GetEffectiveTTL g1 \<and>
                    catalogs_valid_until g1 = time_finish_valid clk + uint (GetEffectiveTTL g1))
            else alarm g1 = alarm g \<and> catalogs_valid_until g1 = catalogs_valid_until g)"
proof (cases "finish_applies clk g")
  case False
  then show ?thesis
    by (auto simp: RemountFinish_def finish_applies_def manager_after_finish_def
                   atomic_cas32_def Let_def)
next
  case True
  let ?g1 = "g\<lparr> reload_critical_section := 1 \<rparr>"
  have c: "sint (counter (remount_fence ?g1)) \<le> 0" using assms True by simp
  obtain g2 where a: "RemountFinish_apply m clk ?g1 = Inr g2"
      "catalog_manager g2 = snd (Remount m False (catalog_manager ?g1))"
      "catalogs_expired g2 = catalogs_expired ?g1"
      "max_ttl g2 = max_ttl ?g1" "kcache_timeout g2 = kcache_timeout ?g1"
      "drainout_mode g2 = snd (atomic_cas32 (drainout_mode ?g1) 1 0)"
      "(if finish_failed m ?g1
            then alarm g2 = 180 \<and> catalogs_valid_until g2 = time_finish_valid clk + 180
            else alarm g2 = GetEffectiveTTL g2 \<and>
                 catalogs_valid_until g2 = time_finish_valid clk + uint (GetEffectiveTTL g2))"
    using RemountFinish_apply_result [OF c, of m clk] by blast
  have ff: "finish_failed m ?g1 = finish_failed m g" by (simp add: finish_failed_def)
  let ?g3 = "g2\<lparr> reload_critical_section := snd (atomic_cas32 (reload_critical_section g2) 1 0) \<rparr>"
  have r: "RemountFinish m clk g = Inr ?g3"
    using True a(1) by (simp add: RemountFinish_def finish_applies_def atomic_cas32_def Let_def)
  have e: "GetEffectiveTTL ?g3 = GetEffectiveTTL g2"
    by (rule GetEffectiveTTL_cong) simp_all
  show ?thesis
    unfolding r using True a(2-7) e ff
    by (simp add: manager_after_finish_def)
qed

lemma RemountCheck_result:
  assumes "maintenance_mode g \<noteq> 1"
    and "finish_applies clk g \<longrightarrow> sint (counter (remount_fence g)) \<le> 0"
  shows "\<exists>g'. RemountCheck m clk g = Inr g' \<and>
           (catalogs_expired g = 1 \<and>
            (start_answer m clk g = kLoadFail \<or> start_answer m clk g = kLoadNoSpace)
            \<longrightarrow> alarm g' = 180 \<and> catalogs_valid_until g' = time_check_valid clk + 180 \<and>
                 catalog_manager g' = snd (Remount m True (manager_after_finish m clk g)) \<and>
                 drainout_mode g' =
                   (if finish_applies clk g then snd (atomic_cas32 (drainout_mode g) 1 0)
                    else drainout_mode g)) \<and>
           (finish_applies clk g \<and> finish_failed m g
            \<longrightarrow> catalog_manager g' =
                   (if catalogs_expired g = 1
                    then snd (Remount m True (manager_after_finish m clk g))
                    else manager_after_finish m clk g) \<and>
                 (if catalogs_expired g = 1 \<and> start_answer m clk g = kLoadUp2Date
                  then alarm g' = GetEffectiveTTL g' \<and>
                       catalogs_valid_until g' = time_check_valid clk + uint (GetEffectiveTTL g')
                  else if catalogs_expired g = 1 \<and>
                          (start_answer m clk g = kLoadFail \<or> start_answer m clk g = kLoadNoSpace)
                  then alarm g' = 180 \<and> catalogs_valid_until g' = time_check_valid clk + 180
                  else alarm g' = 180 \<and> catalogs_valid_until g' = time_finish_valid clk + 180))"
proof -
  obtain g1 where f: "RemountFinish m clk g = Inr g1"
      "catalog_manager g1 = manager_after_finish m clk g"
      "catalogs_expired g1 = catalogs_expired g"
      "drainout_mode g1 =
             (if finish_applies clk g then snd (atomic_cas32 (drainout_mode g) 1 0)
              else drainout_mode g)"
      "(if finish_applies clk g then
              (if finish_failed m g
               then alarm g1 = 180 \<and> catalogs_valid_until g1 = time_finish_valid clk + 180
               else alarm g1 = GetEffectiveTTL g1 \<and>
                    catalogs_valid_until g1 = time_finish_valid clk + uint (GetEffectiveTTL g1))
            else alarm g1 = alarm g \<and> catalogs_valid_until g1 = catalogs_valid_until g)"
    using RemountFinish_result [OF assms(2), of m] by blast
  show ?thesis
  proof (cases "catalogs_expired g = 1")
    case False
    then have "RemountCheck m clk g = Inr g1"
      using assms(1) f(1,3) by (simp add: RemountCheck_def atomic_cas32_def)
    then show ?thesis using False f(2,5) by simp
  next
    case True
    obtain retval mgr where rm: "Remount m True (catalog_manager g1) = (retval, mgr)"
      by (metis surj_pair)
    have sa: "start_answer m clk g = retval" "snd (Remount m True (manager_after_finish m clk g)) = mgr"
      using rm f(2) by (simp_all add: start_answer_def)
    show ?thesis
    proof (cases retval)
      case kLoadNew
      then show ?thesis
        using assms(1) f True rm sa
        by (auto simp: RemountCheck_def RemountStart_def atomic_cas32_def Let_def)
    next
      case kLoadUp2Date
      then show ?thesis
        using assms(1) f True rm sa
        by (auto simp: RemountCheck_def RemountStart_def atomic_cas32_def Let_def
                       GetEffectiveTTL_def GetMaxTTL_def)
    next
      case kLoadNoSpace
      then show ?thesis
        using assms(1) f True rm sa
        by (auto simp: RemountCheck_def RemountStart_def atomic_cas32_def Let_def kShortTermTTL_def)
    next
      case kLoadFail
      then show ?thesis
        using assms(1) f True rm sa
        by (auto simp: RemountCheck_def RemountStart_def atomic_cas32_def Let_def kShortTermTTL_def)
    qed
  qed
qed

text \<open>
  C6 (as amended). Outside maintenance mode \<open>RemountCheck\<close> returns (a \<open>RemountFinish\<close>
  that reaches the remount needs the fence free of readers). When the TTL alarm has fired and
  \<open>RemountStart\<close> answers fail or no-space, the alarm is set to 180 seconds and
  \<open>catalogs_valid_until_\<close> to the time read plus 180, drain-out mode is not entered, and
  the revision served is the one loaded when \<open>RemountStart\<close> ran. When \<open>RemountFinish\<close>
  reaches the remount and it answers fail or no-space, or the manager is in offline mode
  afterwards, the revision served stays the one loaded before, and the alarm and
  \<open>catalogs_valid_until_\<close> are at 180 seconds when \<open>RemountCheck\<close> returns, unless the
  TTL alarm has fired as well and the \<open>RemountStart\<close> that follows in the same call answers
  up-to-date: then they are at the effective TTL. The revisions are those of the contract of
  \<open>Remount\<close>.
\<close>

theorem short_term_ttl_on_failed_reload:
  assumes "remount_contract m" and "maintenance_mode g \<noteq> 1"
    and "finish_applies clk g \<longrightarrow> sint (counter (remount_fence g)) \<le> 0"
  shows "\<exists>g'. RemountCheck m clk g = Inr g' \<and>
           (catalogs_expired g = 1 \<and>
            (start_answer m clk g = kLoadFail \<or> start_answer m clk g = kLoadNoSpace)
            \<longrightarrow> alarm g' = 180 \<and> catalogs_valid_until g' = time_check_valid clk + 180 \<and>
                 GetRevision (catalog_manager g') =
                   GetRevision (manager_after_finish m clk g) \<and>
                 drainout_mode g' =
                   (if finish_applies clk g then snd (atomic_cas32 (drainout_mode g) 1 0)
                    else drainout_mode g)) \<and>
           (finish_applies clk g \<and> finish_failed m g
            \<longrightarrow> GetRevision (catalog_manager g') = GetRevision (catalog_manager g) \<and>
                 (if catalogs_expired g = 1 \<and> start_answer m clk g = kLoadUp2Date
                  then alarm g' = GetEffectiveTTL g' \<and>
                       catalogs_valid_until g' = time_check_valid clk + uint (GetEffectiveTTL g')
                  else if catalogs_expired g = 1 \<and>
                          (start_answer m clk g = kLoadFail \<or> start_answer m clk g = kLoadNoSpace)
                  then alarm g' = 180 \<and> catalogs_valid_until g' = time_check_valid clk + 180
                  else alarm g' = 180 \<and> catalogs_valid_until g' = time_finish_valid clk + 180))"
proof -
  have dry: "GetRevision (snd (Remount m True (manager_after_finish m clk g))) =
               GetRevision (manager_after_finish m clk g)"
    using assms(1) unfolding remount_contract_def by blast
  have app: "finish_applies clk g \<and> finish_failed m g \<Longrightarrow>
             GetRevision (manager_after_finish m clk g) = GetRevision (catalog_manager g)"
  proof -
    assume h: "finish_applies clk g \<and> finish_failed m g"
    then have "fst (Remount m False (catalog_manager g)) \<noteq> kLoadNew \<or>
               offline_mode (snd (Remount m False (catalog_manager g)))"
      by (auto simp: finish_failed_def)
    then have "GetRevision (snd (Remount m False (catalog_manager g))) =
                 GetRevision (catalog_manager g)"
      using assms(1) unfolding remount_contract_def by blast
    then show ?thesis using h by (simp add: manager_after_finish_def)
  qed
  obtain g' where r: "RemountCheck m clk g = Inr g'"
     "catalogs_expired g = 1 \<and>
            (start_answer m clk g = kLoadFail \<or> start_answer m clk g = kLoadNoSpace)
            \<longrightarrow> alarm g' = 180 \<and> catalogs_valid_until g' = time_check_valid clk + 180 \<and>
                 catalog_manager g' = snd (Remount m True (manager_after_finish m clk g)) \<and>
                 drainout_mode g' =
                   (if finish_applies clk g then snd (atomic_cas32 (drainout_mode g) 1 0)
                    else drainout_mode g)"
     "finish_applies clk g \<and> finish_failed m g
            \<longrightarrow> catalog_manager g' =
                   (if catalogs_expired g = 1
                    then snd (Remount m True (manager_after_finish m clk g))
                    else manager_after_finish m clk g) \<and>
                 (if catalogs_expired g = 1 \<and> start_answer m clk g = kLoadUp2Date
                  then alarm g' = GetEffectiveTTL g' \<and>
                       catalogs_valid_until g' = time_check_valid clk + uint (GetEffectiveTTL g')
                  else if catalogs_expired g = 1 \<and>
                          (start_answer m clk g = kLoadFail \<or> start_answer m clk g = kLoadNoSpace)
                  then alarm g' = 180 \<and> catalogs_valid_until g' = time_check_valid clk + 180
                  else alarm g' = 180 \<and> catalogs_valid_until g' = time_finish_valid clk + 180)"
    using RemountCheck_result [OF assms(2) assms(3), of m] by blast
  have c1: "catalogs_expired g = 1 \<and>
            (start_answer m clk g = kLoadFail \<or> start_answer m clk g = kLoadNoSpace)
            \<longrightarrow> alarm g' = 180 \<and> catalogs_valid_until g' = time_check_valid clk + 180 \<and>
                 GetRevision (catalog_manager g') =
                   GetRevision (manager_after_finish m clk g) \<and>
                 drainout_mode g' =
                   (if finish_applies clk g then snd (atomic_cas32 (drainout_mode g) 1 0)
                    else drainout_mode g)"
    using r(2) dry by simp
  have rev: "finish_applies clk g \<and> finish_failed m g
             \<longrightarrow> GetRevision (catalog_manager g') = GetRevision (catalog_manager g)"
  proof
    assume h: "finish_applies clk g \<and> finish_failed m g"
    then have "catalog_manager g' =
                   (if catalogs_expired g = 1
                    then snd (Remount m True (manager_after_finish m clk g))
                    else manager_after_finish m clk g)"
      using r(3) by blast
    then have "GetRevision (catalog_manager g') = GetRevision (manager_after_finish m clk g)"
      using dry by (simp split: if_splits)
    then show "GetRevision (catalog_manager g') = GetRevision (catalog_manager g)"
      using app [OF h] by simp
  qed
  show ?thesis
    using r(1) c1 rev r(3) by blast
qed

theorem short_term_ttl_on_failed_reload_witness:
  "remount_contract failing_mgr \<and> maintenance_mode draining_globals \<noteq> 1 \<and>
   sint (counter (remount_fence draining_globals)) \<le> 0 \<and>
   finish_applies sample_clock draining_globals \<and>
   finish_failed failing_mgr draining_globals \<and>
   catalogs_expired draining_globals = 1 \<and>
   start_answer failing_mgr sample_clock draining_globals = kLoadFail \<and>
   (case RemountCheck failing_mgr sample_clock draining_globals of
      Inl e \<Rightarrow> False
    | Inr g' \<Rightarrow> alarm g' = 180 \<and> catalogs_valid_until g' = 1183 \<and>
               GetRevision (catalog_manager g') = 7) \<and>
   (case RemountCheck failing_mgr sample_clock (draining_globals\<lparr> catalogs_expired := 0 \<rparr>) of
      Inl e \<Rightarrow> False
    | Inr g' \<Rightarrow> alarm g' = 180 \<and> catalogs_valid_until g' = 1181 \<and>
               GetRevision (catalog_manager g') = 7)"
proof -
  let ?g0 = "draining_globals\<lparr> catalogs_expired := 0 \<rparr>"
  have c: "remount_contract failing_mgr"
    by (simp add: remount_contract_def failing_mgr_def)
  have mm: "maintenance_mode draining_globals \<noteq> 1" "maintenance_mode ?g0 \<noteq> 1"
    by (simp_all add: draining_globals_def fresh_globals_def)
  have cnt: "sint (counter (remount_fence draining_globals)) \<le> 0"
    by (simp add: draining_globals_def fresh_globals_def)
  have cnt0: "sint (counter (remount_fence ?g0)) \<le> 0"
    by (simp add: draining_globals_def fresh_globals_def)
  have fa: "finish_applies sample_clock draining_globals" "finish_applies sample_clock ?g0"
    by (simp_all add: finish_applies_def draining_globals_def fresh_globals_def sample_clock_def)
  have ff: "finish_failed failing_mgr draining_globals" "finish_failed failing_mgr ?g0"
    by (simp_all add: finish_failed_def failing_mgr_def)
  have ex: "catalogs_expired draining_globals = 1" "catalogs_expired ?g0 \<noteq> 1"
    by (simp_all add: draining_globals_def fresh_globals_def)
  have sa: "start_answer failing_mgr sample_clock draining_globals = kLoadFail"
    by (simp add: start_answer_def failing_mgr_def)
  have rev: "GetRevision (catalog_manager draining_globals) = 7"
            "GetRevision (catalog_manager ?g0) = 7"
    by (simp_all add: draining_globals_def fresh_globals_def)
  have tf: "time_finish_valid sample_clock = 1001" "time_check_valid sample_clock = 1003"
    by (simp_all add: sample_clock_def)
  obtain g1 where k1: "RemountCheck failing_mgr sample_clock draining_globals = Inr g1"
      "alarm g1 = 180" "catalogs_valid_until g1 = time_check_valid sample_clock + 180"
      "GetRevision (catalog_manager g1) = GetRevision (catalog_manager draining_globals)"
    using short_term_ttl_on_failed_reload [OF c mm(1), of sample_clock] cnt fa(1) ff(1) ex(1) sa
    by auto
  obtain g2 where k2: "RemountCheck failing_mgr sample_clock ?g0 = Inr g2"
      "alarm g2 = 180" "catalogs_valid_until g2 = time_finish_valid sample_clock + 180"
      "GetRevision (catalog_manager g2) = GetRevision (catalog_manager ?g0)"
    using short_term_ttl_on_failed_reload [OF c mm(2), of sample_clock] cnt0 fa(2) ff(2) ex(2)
    by auto
  show ?thesis
    using c mm(1) cnt fa(1) ff(1) ex(1) sa k1 k2 rev tf by simp
qed

text \<open>
  C6 as stated fails when the remount of \<open>RemountFinish\<close> fails while the TTL alarm has
  fired and the dry run of \<open>RemountStart\<close> answers up-to-date: \<open>RemountFinish\<close> installs
  the 180 seconds, and \<open>RemountCheck\<close>, its only caller, replaces them by the effective TTL
  of 3600 seconds before it returns.
\<close>

theorem failed_finish_up_to_date_counterexample:
  "remount_contract up_to_date_mgr \<and>
   finish_applies sample_clock draining_globals \<and>
   fst (Remount up_to_date_mgr False (catalog_manager draining_globals)) = kLoadFail \<and>
   (case RemountFinish up_to_date_mgr sample_clock draining_globals of
      Inl e \<Rightarrow> False
    | Inr g' \<Rightarrow> alarm g' = 180 \<and> catalogs_valid_until g' = 1181) \<and>
   (case RemountCheck up_to_date_mgr sample_clock draining_globals of
      Inl e \<Rightarrow> False
    | Inr g' \<Rightarrow> alarm g' = 3600 \<and> catalogs_valid_until g' = 4603)"
proof -
  have c: "remount_contract up_to_date_mgr"
    by (simp add: remount_contract_def up_to_date_mgr_def)
  have fa: "finish_applies sample_clock draining_globals"
    by (simp add: finish_applies_def draining_globals_def fresh_globals_def sample_clock_def)
  have rf: "fst (Remount up_to_date_mgr False (catalog_manager draining_globals)) = kLoadFail"
    by (simp add: up_to_date_mgr_def)
  have f: "case RemountFinish up_to_date_mgr sample_clock draining_globals of
      Inl e \<Rightarrow> False
    | Inr g' \<Rightarrow> alarm g' = 180 \<and> catalogs_valid_until g' = 1181"
    by (simp add: RemountFinish_def RemountFinish_apply_def up_to_date_mgr_def
          draining_globals_def fresh_globals_def sample_clock_def atomic_cas32_def Block_def
          Unblock_def Let_def Pause_def Drop_def Resume_def kShortTermTTL_def)
  have k: "case RemountCheck up_to_date_mgr sample_clock draining_globals of
      Inl e \<Rightarrow> False
    | Inr g' \<Rightarrow> alarm g' = 3600 \<and> catalogs_valid_until g' = 4603"
    by (simp add: RemountCheck_def RemountStart_def RemountFinish_def RemountFinish_apply_def
          up_to_date_mgr_def
          draining_globals_def fresh_globals_def sample_clock_def atomic_cas32_def Block_def
          Unblock_def Let_def Pause_def Drop_def Resume_def kShortTermTTL_def
          GetEffectiveTTL_def GetMaxTTL_def)
  show ?thesis using c fa rf f k by blast
qed

section \<open>Theorems: the limit on open files\<close>








section \<open>Theorems: inode assignment\<close>

text \<open>On a catalog that is not initialised the assertion of \<open>GetMangledInode\<close> fails.\<close>

lemma GetMangledInode_uninitialised:
  "\<not> initialized c \<Longrightarrow>
   GetMangledInode decls c row_id hardlink_group = Inl AssertionFailed"
  by (simp add: GetMangledInode_def)

text \<open>
  C8. On an initialised catalog whose inode range is not a dummy, \<open>GetMangledInode\<close>
  returns, for an entry with hardlink group 0, the inode \<open>row_id + inode_range.offset\<close>,
  passed through the inode annotation when one is set, and leaves the catalog as it was; with
  an annotation whose \<open>Strip\<close> undoes its \<open>Annotate\<close>, \<open>GetRowIdFromInode\<close> maps the
  assigned inode back to the row id.
\<close>

theorem GetRowIdFromInode_left_inverse:
  assumes "initialized c"
    and "\<not> IsDummy decls (inode_range c)"
    and "annotation_invertible (inode_annotation c)"
  shows "\<exists>ino. GetMangledInode decls c row_id 0 = Inr (ino, c) \<and>
           ino = (case inode_annotation c of
                    None \<Rightarrow> row_id + offset (inode_range c)
                  | Some a \<Rightarrow> Annotate a (row_id + offset (inode_range c))) \<and>
           GetRowIdFromInode c ino = row_id"
  using assms
  by (auto simp: GetMangledInode_def GetRowIdFromInode_def annotation_invertible_def Let_def
           split: option.splits)

theorem GetRowIdFromInode_left_inverse_witness:
  "initialized \<lparr>initialized = True, inode_range = \<lparr>offset = 255, range_size = 100\<rparr>,
                 inode_annotation = Some (xor_annotation 4096),
                 hardlink_groups = Map.empty\<rparr> \<and>
   \<not> IsDummy \<lparr>IsDummy = (\<lambda>r. offset r = 0), kInvalidInode = 0\<rparr>
       (inode_range \<lparr>initialized = True, inode_range = \<lparr>offset = 255, range_size = 100\<rparr>,
                     inode_annotation = Some (xor_annotation 4096),
                     hardlink_groups = Map.empty\<rparr>) \<and>
   annotation_invertible (inode_annotation
       \<lparr>initialized = True, inode_range = \<lparr>offset = 255, range_size = 100\<rparr>,
        inode_annotation = Some (xor_annotation 4096),
        hardlink_groups = Map.empty\<rparr>) \<and>
   GetMangledInode \<lparr>IsDummy = (\<lambda>r. offset r = 0), kInvalidInode = 0\<rparr>
       \<lparr>initialized = True, inode_range = \<lparr>offset = 255, range_size = 100\<rparr>,
        inode_annotation = Some (xor_annotation 4096),
        hardlink_groups = Map.empty\<rparr> 7 0 =
     Inr (4358, \<lparr>initialized = True, inode_range = \<lparr>offset = 255, range_size = 100\<rparr>,
                 inode_annotation = Some (xor_annotation 4096),
                 hardlink_groups = Map.empty\<rparr>) \<and>
   GetRowIdFromInode
       \<lparr>initialized = True, inode_range = \<lparr>offset = 255, range_size = 100\<rparr>,
        inode_annotation = Some (xor_annotation 4096),
        hardlink_groups = Map.empty\<rparr> 4358 = 7"
proof -
  let ?decls = "\<lparr>IsDummy = (\<lambda>r. offset r = 0), kInvalidInode = 0\<rparr>"
  let ?c = "\<lparr>initialized = True, inode_range = \<lparr>offset = 255, range_size = 100\<rparr>,
             inode_annotation = Some (xor_annotation 4096),
             hardlink_groups = Map.empty\<rparr>"
  have h0: "initialized ?c" by simp
  have h1: "\<not> IsDummy ?decls (inode_range ?c)" by simp
  have h2: "annotation_invertible (inode_annotation ?c)"
    by (simp add: annotation_invertible_def xor_annotation_def bit.xor_self ac_simps
             flip: xor.assoc)
  have v: "GetMangledInode ?decls ?c 7 0 = Inr (4358, ?c)"
    by (simp add: GetMangledInode_def xor_annotation_def)
  obtain ino where r: "GetMangledInode ?decls ?c 7 0 = Inr (ino, ?c)"
      "GetRowIdFromInode ?c ino = 7"
    using GetRowIdFromInode_left_inverse [OF h0 h1 h2, of 7] by blast
  have "ino = 4358" using r(1) unfolding v by simp
  then have "GetRowIdFromInode ?c 4358 = 7" using r(2) by simp
  then show ?thesis
    using h0 h1 h2 v by simp
qed

section \<open>Theorems: the fix-up at nested catalog transitions\<close>

lemma FixTransitionPoint_flag:
  "FixTransitionPoint c md5 d = Inr d' \<Longrightarrow> IsNestedCatalogRoot d' = IsNestedCatalogRoot d"
  by (cases c; cases "catalog_parent c")
     (auto split: if_splits sum.splits option.splits)

lemma FixTransitionPoint_root:
  "IsRoot c \<Longrightarrow> FixTransitionPoint c md5 d = Inr d"
  by (cases c; cases "catalog_parent c") auto

lemma FixTransitionPoint_nested:
  assumes "\<not> IsRoot c" and "IsNestedCatalogRoot d" and "FixTransitionPoint c md5 d = Inr d'"
  shows "\<exists>p parent_dirent. catalog_parent c = Some p \<and>
           LookupMd5Path p md5 = Inr (Some parent_dirent) \<and>
           d' = d\<lparr> inode := inode parent_dirent \<rparr>"
  using assms
  by (cases c; cases "catalog_parent c")
     (auto split: if_splits sum.splits option.splits)

lemma LookupMd5Path_found:
  assumes "LookupMd5Path c md5 = Inr (Some d)"
  shows "\<exists>r. find (\<lambda>r. md5path r = md5) (catalog_rows c) = Some r \<and>
             FixTransitionPoint c md5 (row_dirent r) = Inr d"
  using assms
  by (cases c) (auto split: option.splits sum.splits)

text \<open>
  C4 (as amended). An entry that \<open>LookupMd5Path\<close> returns with the nested-catalog-root
  bit set carries, in a catalog that is not a root, the inode that the parent catalog's
  \<open>LookupMd5Path\<close> returns for the same path hash; in a root catalog it is the entry of
  the row, unchanged.
\<close>

theorem LookupMd5Path_transition_fixup:
  assumes "LookupMd5Path c md5 = Inr (Some d)" and "IsNestedCatalogRoot d"
  shows "if IsRoot c
         then find (\<lambda>r. md5path r = md5) (catalog_rows c) \<noteq> None \<and>
              d = row_dirent (the (find (\<lambda>r. md5path r = md5) (catalog_rows c)))
         else \<exists>p parent_dirent. catalog_parent c = Some p \<and>
                LookupMd5Path p md5 = Inr (Some parent_dirent) \<and>
                inode d = inode parent_dirent"
proof -
  obtain r where r: "find (\<lambda>r. md5path r = md5) (catalog_rows c) = Some r"
      "FixTransitionPoint c md5 (row_dirent r) = Inr d"
    using LookupMd5Path_found [OF assms(1)] by blast
  show ?thesis
  proof (cases "IsRoot c")
    case True
    then show ?thesis
      using r FixTransitionPoint_root [OF True, of md5 "row_dirent r"] by simp
  next
    case False
    have "IsNestedCatalogRoot (row_dirent r)"
      using FixTransitionPoint_flag [OF r(2)] assms(2) by simp
    from FixTransitionPoint_nested [OF False this r(2)] show ?thesis
      using False by auto
  qed
qed

theorem LookupMd5Path_transition_fixup_witness:
  "LookupMd5Path nested_catalog 17 = Inr (Some (nested_root_dirent\<lparr> inode := 1000 \<rparr>)) \<and>
   IsNestedCatalogRoot (nested_root_dirent\<lparr> inode := 1000 \<rparr>) \<and>
   \<not> IsRoot nested_catalog \<and>
   catalog_parent nested_catalog = Some parent_catalog \<and>
   LookupMd5Path parent_catalog 17 = Inr (Some mountpoint_dirent) \<and>
   inode (nested_root_dirent\<lparr> inode := 1000 \<rparr>) = inode mountpoint_dirent"
proof -
  have h1: "LookupMd5Path nested_catalog 17 = Inr (Some (nested_root_dirent\<lparr> inode := 1000 \<rparr>))"
    by (simp add: nested_catalog_def nested_rows_def parent_catalog_def nested_root_dirent_def
          mountpoint_dirent_def)
  have h2: "IsNestedCatalogRoot (nested_root_dirent\<lparr> inode := 1000 \<rparr>)"
    by (simp add: nested_root_dirent_def)
  have nr: "\<not> IsRoot nested_catalog" "catalog_parent nested_catalog = Some parent_catalog"
    by (simp_all add: nested_catalog_def)
  have "\<exists>p parent_dirent. catalog_parent nested_catalog = Some p \<and>
          LookupMd5Path p 17 = Inr (Some parent_dirent) \<and>
          inode (nested_root_dirent\<lparr> inode := 1000 \<rparr>) = inode parent_dirent"
    using LookupMd5Path_transition_fixup [OF h1 h2] nr by simp
  then obtain parent_dirent where
    "LookupMd5Path parent_catalog 17 = Inr (Some parent_dirent)"
    "inode (nested_root_dirent\<lparr> inode := 1000 \<rparr>) = inode parent_dirent"
    using nr by auto
  moreover have "LookupMd5Path parent_catalog 17 = Inr (Some mountpoint_dirent)"
    by (simp add: parent_catalog_def mountpoint_dirent_def)
  ultimately show ?thesis
    using h1 h2 nr by simp
qed

text \<open>
  C4 as stated fails in a catalog without parent: a nested catalog opened on its own (as
  \<open>AttachFreely\<close> does) returns its root entry, flagged as nested catalog root, with the
  inode of its own row; there is no parent whose inode could replace it.
\<close>

theorem transition_fixup_counterexample:
  "LookupMd5Path freely_attached_catalog 17 = Inr (Some nested_root_dirent) \<and>
   IsNestedCatalogRoot nested_root_dirent \<and>
   inode nested_root_dirent = 5 \<and>
   catalog_parent freely_attached_catalog = None"
  by (simp add: freely_attached_catalog_def nested_rows_def nested_root_dirent_def
        mountpoint_dirent_def)

text \<open>
  The listings hand \<open>FixTransitionPoint\<close> the hash of the listed directory, not the hash
  of the entry: listing \<open>/\<close> (hash 1) in the nested catalog returns its root entry for
  \<open>/sw\<close> with inode 999, the parent's inode of \<open>/\<close>, while the parent records \<open>/sw\<close>
  under inode 1000.
\<close>

lemma listing_fixup_takes_directory_hash:
  "ListingMd5Path nested_catalog 1 = Inr [nested_root_dirent\<lparr> inode := 999 \<rparr>] \<and>
   LookupMd5Path parent_catalog 17 = Inr (Some mountpoint_dirent) \<and>
   inode mountpoint_dirent = 1000"
  by (simp add: ListingMd5Path_def nested_catalog_def nested_rows_def parent_catalog_def
        nested_root_dirent_def mountpoint_dirent_def)

section \<open>Theorems: the read path of the tiered cache\<close>

lemma copy_loop_terminates:
  assumes "0 < k"
  shows "copy_loop upper lower k fd2 remaining offs buf su sl \<noteq> None"
proof (induction remaining arbitrary: offs buf su sl rule: less_induct)
  case (less remaining)
  show ?case
  proof (cases "remaining > 0")
    case False
    then show ?thesis by (subst copy_loop.simps) auto
  next
    case True
    let ?n = "if remaining > k then k else remaining"
    have dec: "remaining - ?n < remaining" using True assms by auto
    obtain res stored sl1 where p: "Pread lower fd2 ?n offs sl = ((res, stored), sl1)"
      by (metis surj_pair)
    obtain res2 su1 where w: "Write upper (stored @ drop (length stored) buf) ?n su = (res2, su1)"
      by (metis surj_pair)
    have "copy_loop upper lower k fd2 (remaining - ?n) (offs + ?n)
            (stored @ drop (length stored) buf) su1 sl1 \<noteq> None"
      using less.IH [OF dec] .
    then show ?thesis
      using True p w
      by (subst copy_loop.simps) (auto simp: Let_def split: prod.splits)
  qed
qed

lemma copy_buffers_0: "0 < k \<Longrightarrow> copy_buffers k 0 = []"
  by (simp add: copy_buffers_def)

lemma div_add_self_Suc: "0 < (k::nat) \<Longrightarrow> (x + k) div k = Suc (x div k)"
  by (metis div_add_self2 Suc_eq_plus1 less_numeral_extra(3))

lemma buffers_count_small:
  fixes k sz :: nat
  assumes "0 < k" "0 < sz" "sz \<le> k"
  shows "(sz + k - 1) div k = 1"
proof -
  define x where "x = sz - 1"
  have e: "sz + k - 1 = x + k" using assms(2) unfolding x_def by linarith
  have "x < k" using assms unfolding x_def by linarith
  then have "x div k = 0" by simp
  then show ?thesis unfolding e div_add_self_Suc [OF assms(1)] by simp
qed

lemma buffers_count_large:
  fixes k sz :: nat
  assumes "0 < k" "k < sz"
  shows "(sz + k - 1) div k = Suc ((sz - k + k - 1) div k)"
proof -
  define x where "x = sz - k + k - 1"
  have e: "sz + k - 1 = x + k" using assms unfolding x_def by linarith
  show ?thesis unfolding e x_def [symmetric] by (rule div_add_self_Suc [OF assms(1)])
qed

lemma copy_buffers_step:
  assumes "0 < k" "0 < sz"
  shows "copy_buffers k sz =
           (0, min k sz) # map (\<lambda>(o1, n). (min k sz + o1, n)) (copy_buffers k (sz - min k sz))"
proof (cases "sz \<le> k")
  case True
  have "copy_buffers k sz = [(0, sz)]"
    using True assms buffers_count_small [OF assms True]
    by (simp add: copy_buffers_def min_def)
  moreover have "min k sz = sz" using True by simp
  ultimately show ?thesis using assms by (simp add: copy_buffers_0)
next
  case False
  then have lt: "k < sz" by simp
  have m: "min k sz = k" using lt by simp
  let ?c = "(sz - k + k - 1) div k"
  have "[0 ..< (sz + k - 1) div k] = 0 # map Suc [0 ..< ?c]"
    unfolding buffers_count_large [OF assms(1) lt]
    by (simp add: upt_conv_Cons map_Suc_upt del: upt_Suc)
  then have "copy_buffers k sz =
               (0, min k sz) # map (\<lambda>i. (Suc i * k, min k (sz - Suc i * k))) [0 ..< ?c]"
    by (simp add: copy_buffers_def comp_def)
  moreover have "map (\<lambda>(o1, n). (min k sz + o1, n)) (copy_buffers k (sz - min k sz)) =
                 map (\<lambda>i. (Suc i * k, min k (sz - Suc i * k))) [0 ..< ?c]"
    unfolding m by (simp add: copy_buffers_def comp_def diff_diff_left add.commute)
  ultimately show ?thesis by simp
qed

lemma copy_loop_done:
  "copy_loop upper lower k fd2 0 offs buf su sl = Some (True, su, sl)"
  by (subst copy_loop.simps) simp

lemma copy_loop_step:
  assumes "0 < remaining"
  shows "copy_loop upper lower k fd2 remaining offs buf su sl =
     (case Pread lower fd2 (min k remaining) offs sl of
        ((res, stored), sl1) \<Rightarrow>
          if res < 0 \<or> res \<noteq> int (min k remaining)
          then Some (False, close_and_abort upper lower fd2 su sl1)
          else
            (case Write upper (stored @ drop (length stored) buf) (min k remaining) su of
               (res2, su1) \<Rightarrow>
                 if res2 < 0
                 then Some (False, close_and_abort upper lower fd2 su1 sl1)
                 else copy_loop upper lower k fd2 (remaining - min k remaining)
                        (offs + min k remaining) (stored @ drop (length stored) buf) su1 sl1))"
proof -
  have n: "(if remaining > k then k else remaining) = min k remaining" by (simp add: min_def)
  show ?thesis
    using assms
    by (subst copy_loop.simps) (simp add: n Let_def split: prod.splits)
qed

lemma copy_loop_streams:
  assumes "0 < k"
  shows "copy_loop upper lower k fd2 remaining offs buf su sl =
           Some (stream_buffers upper lower fd2
                   (map (\<lambda>(o1, n). (offs + o1, n)) (copy_buffers k remaining)) buf su sl)"
proof (induction remaining arbitrary: offs buf su sl rule: less_induct)
  case (less remaining)
  show ?case
  proof (cases "remaining = 0")
    case True
    then show ?thesis using assms by (simp add: copy_loop_done copy_buffers_0)
  next
    case False
    then have pos: "0 < remaining" by simp
    define n where "n = min k remaining"
    have npos: "0 < n" using assms pos by (simp add: n_def)
    have dec: "remaining - n < remaining" using npos pos by simp
    have bufs: "map (\<lambda>(o1, n). (offs + o1, n)) (copy_buffers k remaining) =
                  (offs, n) # map (\<lambda>(o1, m). (offs + n + o1, m)) (copy_buffers k (remaining - n))"
      unfolding copy_buffers_step [OF assms pos] n_def [symmetric]
      by (simp add: comp_def case_prod_beta add.assoc)
    have ih: "\<And>buf' su' sl'. copy_loop upper lower k fd2 (remaining - n) (offs + n) buf' su' sl' =
           Some (stream_buffers upper lower fd2
                   (map (\<lambda>(o1, m). (offs + n + o1, m)) (copy_buffers k (remaining - n))) buf' su' sl')"
      using less.IH [OF dec] .
    show ?thesis
      unfolding copy_loop_step [OF pos] bufs n_def [symmetric]
      by (simp add: ih split: prod.splits)
  qed
qed

lemma reads_contentD:
  assumes "reads_content lower fd2 bytes P" and "P s"
    and "Pread lower fd2 n off s = ((res, stored), s')"
  shows "stored = take n (drop off bytes) \<and> res = int (length stored) \<and> P s'"
proof -
  have "case Pread lower fd2 n off s of
           ((res, stored), s') \<Rightarrow>
             stored = take n (drop off bytes) \<and> res = int (length stored) \<and> P s'"
    using assms(1) [unfolded reads_content_def, rule_format, OF assms(2)] .
  then show ?thesis using assms(3) by simp
qed

lemma appends_writesD:
  assumes "appends_writes upper written"
    and "Write upper buf n s = (res, s')" and "0 \<le> res"
  shows "written s' = written s @ take n buf"
proof -
  have "case Write upper buf n s of
          (res, s') \<Rightarrow> 0 \<le> res \<longrightarrow> written s' = written s @ take n buf"
    using assms(1) [unfolded appends_writes_def, rule_format] .
  then show ?thesis using assms(2,3) by simp
qed

lemma copy_loop_copies:
  assumes k: "0 < k"
    and rc: "reads_content lower fd2 bytes P"
    and aw: "appends_writes upper written"
  shows "P sl \<Longrightarrow> offs \<le> length bytes \<Longrightarrow>
         copy_loop upper lower k fd2 remaining offs buf su sl = Some (True, su3, sl3) \<Longrightarrow>
         written su3 = written su @ take remaining (drop offs bytes) \<and> P sl3 \<and>
         offs + remaining \<le> length bytes"
proof (induction remaining arbitrary: offs buf su sl rule: less_induct)
  case (less remaining)
  show ?case
  proof (cases "remaining = 0")
    case True
    then show ?thesis using less.prems by (simp add: copy_loop_done)
  next
    case False
    then have pos: "0 < remaining" by simp
    define n where "n = min k remaining"
    have npos: "0 < n" and nle: "n \<le> remaining" using k pos by (simp_all add: n_def)
    have dec: "remaining - n < remaining" using npos pos by simp
    obtain res stored sl1 where p: "Pread lower fd2 n offs sl = ((res, stored), sl1)"
      by (metis surj_pair)
    have pr: "stored = take n (drop offs bytes)" "res = int (length stored)" "P sl1"
      using reads_contentD [OF rc less.prems(1) p] by simp_all
    obtain res2 su1 where w: "Write upper (stored @ drop (length stored) buf) n su = (res2, su1)"
      by (metis surj_pair)
    have step: "copy_loop upper lower k fd2 remaining offs buf su sl =
        (if res < 0 \<or> res \<noteq> int n
          then Some (False, close_and_abort upper lower fd2 su sl1)
          else if res2 < 0
                 then Some (False, close_and_abort upper lower fd2 su1 sl1)
                 else copy_loop upper lower k fd2 (remaining - n)
                        (offs + n) (stored @ drop (length stored) buf) su1 sl1)"
      unfolding copy_loop_step [OF pos] n_def [symmetric] by (simp add: p w)
    have ok1: "\<not> (res < 0 \<or> res \<noteq> int n)"
      using less.prems(3) unfolding step by (auto split: if_splits)
    have ok2: "\<not> res2 < 0"
      using less.prems(3) ok1 unfolding step by (auto split: if_splits)
    have rec: "copy_loop upper lower k fd2 (remaining - n) (offs + n)
                 (stored @ drop (length stored) buf) su1 sl1 = Some (True, su3, sl3)"
      using less.prems(3) ok1 ok2 unfolding step by simp
    have ls: "length stored = n" using ok1 pr(2) by simp
    then have room: "offs + n \<le> length bytes"
      using pr(1) less.prems(2) by (simp add: min_def split: if_splits)
    have "take n (stored @ drop (length stored) buf) = stored" using ls by simp
    then have w1: "written su1 = written su @ stored"
      using appends_writesD [OF aw w] ok2 by simp
    have ih: "written su3 = written su1 @ take (remaining - n) (drop (offs + n) bytes) \<and> P sl3 \<and>
              offs + n + (remaining - n) \<le> length bytes"
      using less.IH [OF dec pr(3) room rec] .
    have "take remaining (drop offs bytes) =
            take n (drop offs bytes) @ take (remaining - n) (drop n (drop offs bytes))"
      using take_add [of n "remaining - n" "drop offs bytes"] nle by simp
    then have "take remaining (drop offs bytes) =
                 stored @ take (remaining - n) (drop (offs + n) bytes)"
      using pr(1) by (simp add: add.commute)
    then show ?thesis using ih w1 nle by simp
  qed
qed

lemma copy_loop_short_read:
  assumes k: "0 < k"
    and rc: "reads_content lower fd2 bytes P"
  shows "P sl \<Longrightarrow> offs \<le> length bytes \<Longrightarrow> length bytes < offs + remaining \<Longrightarrow>
         copy_loop upper lower k fd2 remaining offs buf su sl = Some (ok, su3, sl3) \<Longrightarrow> \<not> ok"
proof (induction remaining arbitrary: offs buf su sl rule: less_induct)
  case (less remaining)
  have pos: "0 < remaining" using less.prems(2,3) by linarith
  define n where "n = min k remaining"
  have npos: "0 < n" and nle: "n \<le> remaining" using k pos by (simp_all add: n_def)
  have dec: "remaining - n < remaining" using npos pos by simp
  obtain res stored sl1 where p: "Pread lower fd2 n offs sl = ((res, stored), sl1)"
    by (metis surj_pair)
  have pr: "stored = take n (drop offs bytes)" "res = int (length stored)" "P sl1"
    using reads_contentD [OF rc less.prems(1) p] by simp_all
  obtain res2 su1 where w: "Write upper (stored @ drop (length stored) buf) n su = (res2, su1)"
    by (metis surj_pair)
  have step: "copy_loop upper lower k fd2 remaining offs buf su sl =
      (if res < 0 \<or> res \<noteq> int n
        then Some (False, close_and_abort upper lower fd2 su sl1)
        else if res2 < 0
               then Some (False, close_and_abort upper lower fd2 su1 sl1)
               else copy_loop upper lower k fd2 (remaining - n)
                      (offs + n) (stored @ drop (length stored) buf) su1 sl1)"
    unfolding copy_loop_step [OF pos] n_def [symmetric] by (simp add: p w)
  show ?case
  proof (cases "res < 0 \<or> res \<noteq> int n")
    case True
    then show ?thesis using less.prems(4) unfolding step by simp
  next
    case ok1: False
    show ?thesis
    proof (cases "res2 < 0")
      case True
      then show ?thesis using less.prems(4) ok1 unfolding step by simp
    next
      case False
      have rec: "copy_loop upper lower k fd2 (remaining - n) (offs + n)
                   (stored @ drop (length stored) buf) su1 sl1 = Some (ok, su3, sl3)"
        using less.prems(4) ok1 False unfolding step by simp
      have ls: "length stored = n" using ok1 pr(2) by simp
      then have room: "offs + n \<le> length bytes"
        using pr(1) less.prems(2) by (simp add: min_def split: if_splits)
      have short: "length bytes < offs + n + (remaining - n)"
        using less.prems(3) nle by simp
      show ?thesis using less.IH [OF dec pr(3) room short rec] .
    qed
  qed
qed

lemma accepts_writesD:
  assumes "accepts_writes upper Q" and "Q s"
    and "Write upper buf n s = (res, s')"
  shows "0 \<le> res \<and> Q s'"
proof -
  have "case Write upper buf n s of (res, s') \<Rightarrow> 0 \<le> res \<and> Q s'"
    using assms(1) [unfolded accepts_writes_def, rule_format, OF assms(2)] .
  then show ?thesis using assms(3) by simp
qed

lemma copy_loop_succeeds:
  assumes k: "0 < k"
    and rc: "reads_content lower fd2 bytes P"
    and wa: "accepts_writes upper Q"
  shows "P sl \<Longrightarrow> Q su \<Longrightarrow> offs + remaining \<le> length bytes \<Longrightarrow>
         \<exists>su3 sl3. copy_loop upper lower k fd2 remaining offs buf su sl = Some (True, su3, sl3)"
proof (induction remaining arbitrary: offs buf su sl rule: less_induct)
  case (less remaining)
  show ?case
  proof (cases "remaining = 0")
    case True
    then show ?thesis by (simp add: copy_loop_done)
  next
    case False
    then have pos: "0 < remaining" by simp
    define n where "n = min k remaining"
    have npos: "0 < n" and nle: "n \<le> remaining" using k pos by (simp_all add: n_def)
    have dec: "remaining - n < remaining" using npos pos by simp
    obtain res stored sl1 where p: "Pread lower fd2 n offs sl = ((res, stored), sl1)"
      by (metis surj_pair)
    have pr: "stored = take n (drop offs bytes)" "res = int (length stored)" "P sl1"
      using reads_contentD [OF rc less.prems(1) p] by simp_all
    obtain res2 su1 where w: "Write upper (stored @ drop (length stored) buf) n su = (res2, su1)"
      by (metis surj_pair)
    have step: "copy_loop upper lower k fd2 remaining offs buf su sl =
        (if res < 0 \<or> res \<noteq> int n
          then Some (False, close_and_abort upper lower fd2 su sl1)
          else if res2 < 0
                 then Some (False, close_and_abort upper lower fd2 su1 sl1)
                 else copy_loop upper lower k fd2 (remaining - n)
                        (offs + n) (stored @ drop (length stored) buf) su1 sl1)"
      unfolding copy_loop_step [OF pos] n_def [symmetric] by (simp add: p w)
    have "n \<le> length bytes - offs" using less.prems(3) nle by linarith
    then have "length stored = n" using pr(1) by simp
    then have ok1: "\<not> (res < 0 \<or> res \<noteq> int n)" using pr(2) by simp
    have wr: "0 \<le> res2 \<and> Q su1"
      using accepts_writesD [OF wa less.prems(2) w] .
    then have ok2: "\<not> res2 < 0" by simp
    have room: "offs + n + (remaining - n) \<le> length bytes" using less.prems(3) nle by simp
    show ?thesis
      unfolding step using ok1 ok2 less.IH [OF dec pr(3) _ room] wr by simp
  qed
qed

lemma copy_loop_refused:
  assumes "0 < remaining" and "writes_refused upper"
    and "copy_loop upper lower k fd2 remaining offs buf su sl = Some (ok, su3, sl3)"
  shows "\<not> ok"
proof -
  define n where "n = min k remaining"
  obtain res stored sl1 where p: "Pread lower fd2 n offs sl = ((res, stored), sl1)"
    by (metis surj_pair)
  obtain res2 su1 where w: "Write upper (stored @ drop (length stored) buf) n su = (res2, su1)"
    by (metis surj_pair)
  have step: "copy_loop upper lower k fd2 remaining offs buf su sl =
      (if res < 0 \<or> res \<noteq> int n
        then Some (False, close_and_abort upper lower fd2 su sl1)
        else if res2 < 0
               then Some (False, close_and_abort upper lower fd2 su1 sl1)
               else copy_loop upper lower k fd2 (remaining - n)
                      (offs + n) (stored @ drop (length stored) buf) su1 sl1)"
    unfolding copy_loop_step [OF assms(1)] n_def [symmetric] by (simp add: p w)
  have "fst (Write upper (stored @ drop (length stored) buf) n su) < 0"
    using assms(2) unfolding writes_refused_def by blast
  then have "res2 < 0" using w by simp
  then show ?thesis using assms(3) unfolding step by (auto split: if_splits)
qed

lemma shift_by_zero: "map (\<lambda>(o1, n). ((0::nat) + o1, n)) xs = xs"
  by (induction xs) auto

text \<open>
  C3. With a positive copy buffer size, \<open>Open\<close> on the tiered cache returns. When the
  upper layer's \<open>Open\<close> returns anything but \<open>-ENOENT\<close>, that value is returned and the
  lower layer is left untouched. Otherwise the value returned is the descriptor of
  \<open>OpenFromTxn\<close> on the upper transaction exactly when the lower \<open>Open\<close>, the lower
  \<open>GetSize\<close>, the upper \<open>StartTxn\<close> with the size the lower layer reported, the copy,
  \<open>OpenFromTxn\<close> and \<open>CommitTxn\<close> all succeeded; if any of them failed, it is
  \<open>-ENOENT\<close>, the upper layer's original error. The copy loop streams the pieces of
  \<open>copy_buffers\<close> in order and fails at the first read that fails or is short and at the
  first write that fails. When the lower layer reads the bytes of an object from the
  descriptor, a copy that succeeds has appended the first \<open>sz\<close> of them to the upper
  transaction, and they are at least \<open>sz\<close>; the copy succeeds when they are at least
  \<open>sz\<close> and the upper layer accepts the writes. When the object is not empty and the upper
  layer refuses the writes, the copy fails.
\<close>

theorem TieredCacheManager_Open_read_path:
  assumes "0 < k"
  shows "\<exists>r su' sl'.
           TieredCacheManager_Open upper lower k obj su sl = Some (r, su', sl') \<and>
           (if fst (Open upper obj su) \<noteq> - ENOENT
            then r = fst (Open upper obj su) \<and> su' = snd (Open upper obj su) \<and> sl' = sl
            else (\<exists>fd2 sl1 sz sl2 st su2 ok su3 sl3 fdr su4 c su5.
                    Open lower obj sl = (fd2, sl1) \<and>
                    GetSize lower fd2 sl1 = (sz, sl2) \<and>
                    StartTxn upper (object_id obj) (nat sz) (snd (Open upper obj su)) = (st, su2) \<and>
                    copy_loop upper lower k fd2 (nat sz) 0 []
                      (CtrlTxn upper (object_info obj) 0 su2) sl2 = Some (ok, su3, sl3) \<and>
                    stream_buffers upper lower fd2 (copy_buffers k (nat sz)) []
                      (CtrlTxn upper (object_info obj) 0 su2) sl2 = (ok, su3, sl3) \<and>
                    OpenFromTxn upper su3 = (fdr, su4) \<and>
                    CommitTxn upper su4 = (c, su5) \<and>
                    (if 0 \<le> fd2 \<and> 0 \<le> sz \<and> 0 \<le> st \<and> ok \<and> 0 \<le> fdr \<and> 0 \<le> c
                     then r = fdr \<and> su' = su5 \<and> sl' = snd (Close lower fd2 sl3)
                     else r = - ENOENT) \<and>
                    (reads_content lower fd2 bytes P \<and> P sl2 \<longrightarrow>
                       (ok \<and> appends_writes upper written \<longrightarrow>
                          written su3 =
                            written (CtrlTxn upper (object_info obj) 0 su2) @ take (nat sz) bytes) \<and>
                       (ok \<longrightarrow> nat sz \<le> length bytes) \<and>
                       (nat sz \<le> length bytes \<and> accepts_writes upper Q \<and>
                        Q (CtrlTxn upper (object_info obj) 0 su2) \<longrightarrow> ok)) \<and>
                    (0 < sz \<and> writes_refused upper \<longrightarrow> \<not> ok)))"
proof -
  obtain fd0 su1 where o: "Open upper obj su = (fd0, su1)" by (metis surj_pair)
  show ?thesis
  proof (cases "fd0 = - ENOENT")
    case False
    then show ?thesis
      using o by (auto simp: TieredCacheManager_Open_def)
  next
    case True
    then have neg: "\<not> (fd0 \<ge> 0 \<or> fd0 \<noteq> - ENOENT)" by (simp add: ENOENT_def)
    obtain fd2 sl1 where l: "Open lower obj sl = (fd2, sl1)" by (metis surj_pair)
    obtain sz sl2 where g: "GetSize lower fd2 sl1 = (sz, sl2)" by (metis surj_pair)
    obtain st su2 where s: "StartTxn upper (object_id obj) (nat sz) su1 = (st, su2)"
      by (metis surj_pair)
    define su0 where "su0 = CtrlTxn upper (object_info obj) 0 su2"
    obtain ok su3 sl3 where c: "copy_loop upper lower k fd2 (nat sz) 0 [] su0 sl2 = Some (ok, su3, sl3)"
      using copy_loop_terminates [OF assms, of upper lower fd2 "nat sz" 0 "[]" su0 sl2]
      by (auto intro: prod_cases3)
    obtain fdr su4 where f: "OpenFromTxn upper su3 = (fdr, su4)" by (metis surj_pair)
    obtain cm su5 where m: "CommitTxn upper su4 = (cm, su5)" by (metis surj_pair)
    have sb: "stream_buffers upper lower fd2 (copy_buffers k (nat sz)) [] su0 sl2 = (ok, su3, sl3)"
      using c copy_loop_streams [OF assms, of upper lower fd2 "nat sz" 0 "[]" su0 sl2]
      by (simp add: shift_by_zero)
    have sem: "reads_content lower fd2 bytes P \<and> P sl2 \<longrightarrow>
                 (ok \<and> appends_writes upper written \<longrightarrow>
                    written su3 = written su0 @ take (nat sz) bytes) \<and>
                 (ok \<longrightarrow> nat sz \<le> length bytes) \<and>
                 (nat sz \<le> length bytes \<and> accepts_writes upper Q \<and> Q su0 \<longrightarrow> ok)"
    proof (intro impI conjI)
      assume h: "reads_content lower fd2 bytes P \<and> P sl2"
        and h2: "ok \<and> appends_writes upper written"
      have "copy_loop upper lower k fd2 (nat sz) 0 [] su0 sl2 = Some (True, su3, sl3)"
        using c h2 by simp
      from copy_loop_copies [OF assms _ _ _ _ this, of bytes P written] h h2
      show "written su3 = written su0 @ take (nat sz) bytes" by simp
    next
      assume h: "reads_content lower fd2 bytes P \<and> P sl2" and h2: ok
      show "nat sz \<le> length bytes"
      proof (rule ccontr)
        assume "\<not> nat sz \<le> length bytes"
        then have "length bytes < 0 + nat sz" by simp
        from copy_loop_short_read [OF assms _ _ _ this c, of P] h h2
        show False by simp
      qed
    next
      assume h: "reads_content lower fd2 bytes P \<and> P sl2"
        and h2: "nat sz \<le> length bytes \<and> accepts_writes upper Q \<and> Q su0"
      have "\<exists>su3 sl3. copy_loop upper lower k fd2 (nat sz) 0 [] su0 sl2 = Some (True, su3, sl3)"
        using copy_loop_succeeds [OF assms, of lower fd2 bytes P upper Q sl2 su0 0 "nat sz" "[]"]
          h h2 by simp
      then show ok using c by auto
    qed
    have ref: "0 < sz \<and> writes_refused upper \<longrightarrow> \<not> ok"
      using copy_loop_refused [of "nat sz" upper lower k fd2 0 "[]" su0 sl2 ok su3 sl3] c by simp
    have main: "\<exists>r su' sl'.
        TieredCacheManager_Open upper lower k obj su sl = Some (r, su', sl') \<and>
        (if 0 \<le> fd2 \<and> 0 \<le> sz \<and> 0 \<le> st \<and> ok \<and> 0 \<le> fdr \<and> 0 \<le> cm
         then r = fdr \<and> su' = su5 \<and> sl' = snd (Close lower fd2 sl3)
         else r = - ENOENT)"
      using o True neg l g s c f m unfolding su0_def
      by (cases ok) (auto simp: TieredCacheManager_Open_def)
    then obtain r su' sl' where
      t: "TieredCacheManager_Open upper lower k obj su sl = Some (r, su', sl')"
      and v: "if 0 \<le> fd2 \<and> 0 \<le> sz \<and> 0 \<le> st \<and> ok \<and> 0 \<le> fdr \<and> 0 \<le> cm
         then r = fdr \<and> su' = su5 \<and> sl' = snd (Close lower fd2 sl3)
         else r = - ENOENT"
      by blast
    have e: "fst (Open upper obj su) = - ENOENT" "snd (Open upper obj su) = su1"
      using o True by simp_all
    show ?thesis
      unfolding e
      apply (simp only: simp_thms if_False)
      using t l g s c sb f m v sem ref unfolding su0_def
      by blast
  qed
qed

text \<open>
  An instance with two in-memory layers and a buffer of two bytes: the lower layer holds a
  five-byte object, the upper layer is empty; after \<open>Open\<close> the upper layer holds the same
  five bytes under the same hash and the descriptor returned reads them.
\<close>

lemma copy_loop_sample:
  "copy_loop mem_layer mem_layer 2 3 5 0 []
     (empty_cache\<lparr> transaction := Some (''c0ffee'', 5, []) \<rparr>)
     (lower_with_object\<lparr> descriptors := [(3, [1, 2, 3, 4, 5])] \<rparr>) =
   Some (True, empty_cache\<lparr> transaction := Some (''c0ffee'', 5, [1, 2, 3, 4, 5]) \<rparr>,
         lower_with_object\<lparr> descriptors := [(3, [1, 2, 3, 4, 5])] \<rparr>)"
  apply (subst copy_loop.simps)
  apply (simp add: mem_layer_def empty_cache_def lower_with_object_def)
  apply (subst copy_loop.simps)
  apply (simp add: mem_layer_def empty_cache_def lower_with_object_def)
  apply (subst copy_loop.simps)
  apply (simp add: mem_layer_def empty_cache_def lower_with_object_def)
  apply (subst copy_loop.simps)
  apply (simp add: mem_layer_def empty_cache_def lower_with_object_def)
  done

lemma TieredCacheManager_Open_sample:
  "TieredCacheManager_Open mem_layer mem_layer 2 sample_object empty_cache lower_with_object =
     Some (3, \<lparr> objects = [(''c0ffee'', [1, 2, 3, 4, 5])],
                descriptors = [(3, [1, 2, 3, 4, 5])], transaction = None \<rparr>,
           lower_with_object)"
proof -
  have o: "Open mem_layer sample_object empty_cache = (- ENOENT, empty_cache)"
    by (simp add: mem_layer_def sample_object_def empty_cache_def)
  have l: "Open mem_layer sample_object lower_with_object =
             (3, lower_with_object\<lparr> descriptors := [(3, [1, 2, 3, 4, 5])] \<rparr>)"
    by (simp add: mem_layer_def sample_object_def lower_with_object_def empty_cache_def)
  have g: "GetSize mem_layer 3 (lower_with_object\<lparr> descriptors := [(3, [1, 2, 3, 4, 5])] \<rparr>) =
             (5, lower_with_object\<lparr> descriptors := [(3, [1, 2, 3, 4, 5])] \<rparr>)"
    by (simp add: mem_layer_def)
  have s: "StartTxn mem_layer (object_id sample_object) 5 empty_cache =
             (0, empty_cache\<lparr> transaction := Some (''c0ffee'', 5, []) \<rparr>)"
    by (simp add: mem_layer_def sample_object_def)
  have c: "CtrlTxn mem_layer (object_info sample_object) 0
             (empty_cache\<lparr> transaction := Some (''c0ffee'', 5, []) \<rparr>) =
           empty_cache\<lparr> transaction := Some (''c0ffee'', 5, []) \<rparr>"
    by (simp add: mem_layer_def)
  have f: "OpenFromTxn mem_layer
             (empty_cache\<lparr> transaction := Some (''c0ffee'', 5, [1, 2, 3, 4, 5]) \<rparr>) =
           (3, \<lparr> objects = [], descriptors = [(3, [1, 2, 3, 4, 5])],
                 transaction = Some (''c0ffee'', 5, [1, 2, 3, 4, 5]) \<rparr>)"
    by (simp add: mem_layer_def empty_cache_def)
  have m: "CommitTxn mem_layer
             \<lparr> objects = [], descriptors = [(3, [1, 2, 3, 4, 5])],
               transaction = Some (''c0ffee'', 5, [1, 2, 3, 4, 5]) \<rparr> =
           (0, \<lparr> objects = [(''c0ffee'', [1, 2, 3, 4, 5])],
                 descriptors = [(3, [1, 2, 3, 4, 5])], transaction = None \<rparr>)"
    by (simp add: mem_layer_def)
  have cl: "Close mem_layer 3 (lower_with_object\<lparr> descriptors := [(3, [1, 2, 3, 4, 5])] \<rparr>) =
            (0, lower_with_object)"
    by (simp add: mem_layer_def lower_with_object_def empty_cache_def)
  show ?thesis
    by (simp add: TieredCacheManager_Open_def o l g s c copy_loop_sample f m cl ENOENT_def)
qed

lemma mem_layer_reads_content: "reads_content mem_layer 3 sample_bytes holds_sample"
  by (simp add: reads_content_def mem_layer_def holds_sample_def)

lemma mem_layer_appends_writes: "appends_writes mem_layer txn_written"
  by (auto simp: appends_writes_def mem_layer_def txn_written_def EBADF_def split: option.splits)

lemma mem_layer_accepts_writes: "accepts_writes mem_layer txn_open"
  by (auto simp: accepts_writes_def mem_layer_def txn_open_def split: option.splits)

lemma refusing_layer_refuses: "writes_refused refusing_layer"
  by (simp add: writes_refused_def refusing_layer_def EIO_def)

theorem TieredCacheManager_Open_read_path_witness:
  "0 < (2::nat) \<and>
   fst (Open mem_layer sample_object empty_cache) = - ENOENT \<and>
   reads_content mem_layer 3 sample_bytes holds_sample \<and>
   holds_sample (lower_with_object\<lparr> descriptors := [(3, [1, 2, 3, 4, 5])] \<rparr>) \<and>
   appends_writes mem_layer txn_written \<and>
   accepts_writes mem_layer txn_open \<and>
   txn_open (empty_cache\<lparr> transaction := Some (''c0ffee'', 5, []) \<rparr>) \<and>
   writes_refused refusing_layer \<and>
   TieredCacheManager_Open mem_layer mem_layer 2 sample_object empty_cache lower_with_object =
     Some (3, \<lparr> objects = [(''c0ffee'', [1, 2, 3, 4, 5])],
                descriptors = [(3, [1, 2, 3, 4, 5])], transaction = None \<rparr>,
           lower_with_object) \<and>
   (\<exists>su' sl'. TieredCacheManager_Open refusing_layer mem_layer 2 sample_object empty_cache
                 lower_with_object = Some (- ENOENT, su', sl'))"
proof -
  have k: "0 < (2::nat)" by simp
  have o: "Open mem_layer sample_object empty_cache = (- ENOENT, empty_cache)"
    by (simp add: mem_layer_def sample_object_def empty_cache_def)
  have l: "Open mem_layer sample_object lower_with_object =
             (3, lower_with_object\<lparr> descriptors := [(3, [1, 2, 3, 4, 5])] \<rparr>)"
    by (simp add: mem_layer_def sample_object_def lower_with_object_def empty_cache_def)
  have g: "GetSize mem_layer 3 (lower_with_object\<lparr> descriptors := [(3, [1, 2, 3, 4, 5])] \<rparr>) =
             (5, lower_with_object\<lparr> descriptors := [(3, [1, 2, 3, 4, 5])] \<rparr>)"
    by (simp add: mem_layer_def)
  have hs: "holds_sample (lower_with_object\<lparr> descriptors := [(3, [1, 2, 3, 4, 5])] \<rparr>)"
    by (simp add: holds_sample_def sample_bytes_def)
  have tq: "txn_open (empty_cache\<lparr> transaction := Some (''c0ffee'', 5, []) \<rparr>)"
    by (simp add: txn_open_def)
  have ro: "Open refusing_layer sample_object empty_cache = (- ENOENT, empty_cache)"
    by (simp add: refusing_layer_def mem_layer_def sample_object_def empty_cache_def)
  have rr: "writes_refused refusing_layer" by (rule refusing_layer_refuses)
  have "\<exists>r su' sl'.
          TieredCacheManager_Open mem_layer mem_layer 2 sample_object empty_cache
            lower_with_object = Some (r, su', sl')"
    using TieredCacheManager_Open_read_path [OF k, where upper = mem_layer and lower = mem_layer
            and obj = sample_object and su = empty_cache and sl = lower_with_object
            and bytes = sample_bytes and P = holds_sample and written = txn_written
            and Q = txn_open]
    by blast
  then have t1: "TieredCacheManager_Open mem_layer mem_layer 2 sample_object empty_cache
                   lower_with_object =
                 Some (3, \<lparr> objects = [(''c0ffee'', [1, 2, 3, 4, 5])],
                            descriptors = [(3, [1, 2, 3, 4, 5])], transaction = None \<rparr>,
                       lower_with_object)"
    using TieredCacheManager_Open_sample by simp
  have e: "fst (Open refusing_layer sample_object empty_cache) = - ENOENT"
    using ro by simp
  have full: "\<exists>r su' sl'.
         TieredCacheManager_Open refusing_layer mem_layer 2 sample_object
          empty_cache lower_with_object = Some (r, su', sl') \<and>
         (\<exists>fd2 sl1 sz sl2 st su2 ok su3 sl3 fdr su4 c su5.
             Open mem_layer sample_object lower_with_object = (fd2, sl1) \<and>
             GetSize mem_layer fd2 sl1 = (sz, sl2) \<and>
             StartTxn refusing_layer (object_id sample_object) (nat sz)
              (snd (Open refusing_layer sample_object empty_cache)) = (st, su2) \<and>
             copy_loop refusing_layer mem_layer 2 fd2 (nat sz) 0 []
              (CtrlTxn refusing_layer (object_info sample_object) 0 su2) sl2 =
               Some (ok, su3, sl3) \<and>
             stream_buffers refusing_layer mem_layer fd2 (copy_buffers 2 (nat sz)) []
              (CtrlTxn refusing_layer (object_info sample_object) 0 su2) sl2 = (ok, su3, sl3) \<and>
             OpenFromTxn refusing_layer su3 = (fdr, su4) \<and>
             CommitTxn refusing_layer su4 = (c, su5) \<and>
             (if 0 \<le> fd2 \<and> 0 \<le> sz \<and> 0 \<le> st \<and> ok \<and> 0 \<le> fdr \<and> 0 \<le> c
              then r = fdr \<and> su' = su5 \<and> sl' = snd (Close mem_layer fd2 sl3)
              else r = - ENOENT) \<and>
             (reads_content mem_layer fd2 sample_bytes holds_sample \<and> holds_sample sl2 \<longrightarrow>
              (ok \<and> appends_writes refusing_layer txn_written \<longrightarrow>
               txn_written su3 =
               txn_written (CtrlTxn refusing_layer (object_info sample_object) 0 su2) @
               take (nat sz) sample_bytes) \<and>
              (ok \<longrightarrow> nat sz \<le> length sample_bytes) \<and>
              (nat sz \<le> length sample_bytes \<and> accepts_writes refusing_layer txn_open \<and>
               txn_open (CtrlTxn refusing_layer (object_info sample_object) 0 su2) \<longrightarrow> ok)) \<and>
             (0 < sz \<and> writes_refused refusing_layer \<longrightarrow> \<not> ok))"
    using TieredCacheManager_Open_read_path [OF k, where upper = refusing_layer
            and lower = mem_layer
            and obj = sample_object and su = empty_cache and sl = lower_with_object
            and bytes = sample_bytes and P = holds_sample and written = txn_written
            and Q = txn_open]
    unfolding e by (simp only: simp_thms if_False)
  then obtain r su' sl' fd2 sl1 sz sl2 st ok fdr c su5 sl3 where
    t: "TieredCacheManager_Open refusing_layer mem_layer 2 sample_object empty_cache
          lower_with_object = Some (r, su', sl')"
    and l': "Open mem_layer sample_object lower_with_object = (fd2, sl1)"
    and g': "GetSize mem_layer fd2 sl1 = (sz, sl2)"
    and v: "if 0 \<le> fd2 \<and> 0 \<le> sz \<and> 0 \<le> (st::int) \<and> ok \<and> 0 \<le> fdr \<and> 0 \<le> (c::int)
            then r = fdr \<and> su' = su5 \<and> sl' = snd (Close mem_layer fd2 sl3)
            else r = - ENOENT"
    and ref: "0 < sz \<and> writes_refused refusing_layer \<longrightarrow> \<not> ok"
    by (elim exE conjE) (rule that; assumption)
  have "fd2 = 3" "sl1 = lower_with_object\<lparr> descriptors := [(3, [1, 2, 3, 4, 5])] \<rparr>"
    using l l' by simp_all
  then have "sz = 5" using g g' by simp
  then have "\<not> ok" using ref rr by simp
  then have "r = - ENOENT" using v by simp
  then have t2: "\<exists>su' sl'. TieredCacheManager_Open refusing_layer mem_layer 2 sample_object
                   empty_cache lower_with_object = Some (- ENOENT, su', sl')"
    using t by blast
  have o1: "fst (Open mem_layer sample_object empty_cache) = - ENOENT" using o by simp
  show ?thesis
    using k o1 mem_layer_reads_content hs mem_layer_appends_writes mem_layer_accepts_writes
      tq rr t1 t2
    by blast
qed

section \<open>Theorems: reading chunked files\<close>

lemma u32_id: "0 \<le> i \<Longrightarrow> i < 4294967296 \<Longrightarrow> u32 i = nat i"
  by (simp add: u32_def)

lemma u64_id: "0 \<le> i \<Longrightarrow> i < 18446744073709551616 \<Longrightarrow> u64 i = nat i"
  by (simp add: u64_def)

lemma u32_of_nat: "k < 4294967296 \<Longrightarrow> u32 (int k) = k"
  by (simp add: u32_def)

lemma u32_pred:
  assumes "0 < k" and "k < 4294967296"
  shows "u32 (int k - 1) = k - 1"
proof -
  have e: "int k - 1 = int (k - 1)" using assms(1) by linarith
  have "u32 (int (k - 1)) = k - 1" using assms(2) by (intro u32_of_nat) simp
  then show ?thesis unfolding e .
qed

lemma u32_suc:
  assumes "Suc k < 4294967296"
  shows "u32 (int k + 1) = Suc k"
proof -
  have e: "int k + 1 = int (Suc k)" by linarith
  have "u32 (int (Suc k)) = Suc k" using assms by (rule u32_of_nat)
  then show ?thesis unfolding e .
qed

lemma idx_middle_simple:
  assumes "lo \<le> hi" and "hi < 4294967296"
  shows "idx_middle lo hi = lo + (hi - lo) div 2"
proof -
  have a: "u32 (int hi - int lo) = hi - lo"
    using assms by (simp add: u32_id nat_diff_distrib')
  have b: "int lo + int ((hi - lo) div 2) < 4294967296"
    using assms by linarith
  show ?thesis
    unfolding idx_middle_def a using b by (simp add: u32_id nat_add_distrib)
qed

lemma contiguous_next:
  "contiguous_from start cs \<Longrightarrow> Suc i < length cs \<Longrightarrow>
   chunk_offset (cs ! Suc i) = chunk_offset (cs ! i) + int (chunk_size (cs ! i)) \<and>
   0 < chunk_size (cs ! i)"
proof (induction cs arbitrary: start i)
  case Nil
  then show ?case by simp
next
  case (Cons c cs)
  show ?case
  proof (cases i)
    case 0
    then show ?thesis using Cons.prems by (cases cs) auto
  next
    case (Suc j)
    then show ?thesis using Cons.prems Cons.IH [of "start + int (chunk_size c)" j] by auto
  qed
qed

lemma contiguous_first:
  "contiguous_from start cs \<Longrightarrow> cs \<noteq> [] \<Longrightarrow> chunk_offset (cs ! 0) = start"
  by (cases cs) auto

lemma contiguous_start:
  "contiguous_from start cs \<Longrightarrow> i < length cs \<Longrightarrow>
   chunk_offset (cs ! i) = start + int (sum_list (map chunk_size (take i cs)))"
proof (induction cs arbitrary: start i)
  case Nil
  then show ?case by simp
next
  case (Cons c cs)
  show ?case
  proof (cases i)
    case 0
    then show ?thesis using Cons.prems by simp
  next
    case (Suc j)
    then show ?thesis using Cons.prems Cons.IH [of "start + int (chunk_size c)" j] by simp
  qed
qed

lemma chunk_search_correct:
  assumes wf: "contiguous_from 0 chunks" and n: "length chunks < 4294967296"
  shows "lo \<le> hi \<Longrightarrow> hi < length chunks \<Longrightarrow> chunk_offset (chunks ! lo) \<le> off \<Longrightarrow>
         hi = length chunks - 1 \<or> off < chunk_offset (chunks ! Suc hi) \<Longrightarrow>
         \<exists>t. chunk_search chunks off lo hi (idx_middle lo hi) = Some (Inr t) \<and>
             t < length chunks \<and> chunk_offset (chunks ! t) \<le> off \<and>
             (t = length chunks - 1 \<or> off < chunk_offset (chunks ! Suc t))"
proof (induction "hi - lo" arbitrary: lo hi rule: less_induct)
  case less
  let ?idx = "lo + (hi - lo) div 2"
  have hi32: "hi < 4294967296" using less.prems(2) n by simp
  have mid: "idx_middle lo hi = ?idx"
    using idx_middle_simple [OF less.prems(1) hi32] .
  show ?case
  proof (cases "lo < hi")
    case False
    then have "lo = hi" using less.prems(1) by simp
    then have m: "idx_middle lo hi = lo" using mid by simp
    have "chunk_search chunks off lo hi (idx_middle lo hi) = Some (Inr lo)"
      using False by (subst chunk_search.simps) (simp add: m)
    then show ?thesis
      using less.prems \<open>lo = hi\<close> by auto
  next
    case True
    have idx_lt: "?idx < hi" "lo \<le> ?idx" using True by auto
    have idx_n: "?idx < length chunks" using idx_lt less.prems(2) by simp
    have idx_not_last: "?idx \<noteq> length chunks - 1" using idx_lt less.prems(2) by simp
    have suc32: "u32 (int ?idx + 1) = Suc ?idx"
      using u32_suc [of ?idx] idx_lt hi32 by simp
    have suc_n: "Suc ?idx < length chunks" using idx_lt less.prems(2) by simp
    show ?thesis
    proof (cases "chunk_offset (chunks ! ?idx) > off")
      case above: True
      have ne: "?idx \<noteq> lo"
      proof
        assume "?idx = lo"
        then have "chunk_offset (chunks ! lo) > off" using above by simp
        then show False using less.prems(3) by simp
      qed
      then have pos: "0 < ?idx" "lo \<le> ?idx - 1" using idx_lt by auto
      have pred32: "u32 (int ?idx - 1) = ?idx - 1"
        using u32_pred [of ?idx] pos idx_lt hi32 by simp
      have step: "chunk_search chunks off lo hi (idx_middle lo hi) =
                  chunk_search chunks off lo (?idx - 1) (idx_middle lo (?idx - 1))"
        using True idx_n above pred32
        by (subst chunk_search.simps) (simp add: mid)
      have "\<exists>t. chunk_search chunks off lo (?idx - 1) (idx_middle lo (?idx - 1)) = Some (Inr t) \<and>
             t < length chunks \<and> chunk_offset (chunks ! t) \<le> off \<and>
             (t = length chunks - 1 \<or> off < chunk_offset (chunks ! Suc t))"
      proof (rule less.hyps)
        show "?idx - 1 - lo < hi - lo" using idx_lt pos by linarith
        show "lo \<le> ?idx - 1" using pos by simp
        show "?idx - 1 < length chunks" using idx_n by simp
        show "chunk_offset (chunks ! lo) \<le> off" using less.prems(3) .
        show "?idx - 1 = length chunks - 1 \<or> off < chunk_offset (chunks ! Suc (?idx - 1))"
          using above pos by simp
      qed
      then show ?thesis using step by simp
    next
      case below: False
      show ?thesis
      proof (cases "chunk_offset (chunks ! Suc ?idx) > off")
        case True
        have "chunk_search chunks off lo hi (idx_middle lo hi) = Some (Inr ?idx)"
          using \<open>lo < hi\<close> idx_n below idx_not_last suc32 suc_n True
          by (subst chunk_search.simps) (simp add: mid)
        then show ?thesis using idx_n below True by auto
      next
        case False
        have step: "chunk_search chunks off lo hi (idx_middle lo hi) =
                    chunk_search chunks off (Suc ?idx) hi (idx_middle (Suc ?idx) hi)"
          using \<open>lo < hi\<close> idx_n below idx_not_last suc32 suc_n False
          by (subst chunk_search.simps) (simp add: mid)
        have "\<exists>t. chunk_search chunks off (Suc ?idx) hi (idx_middle (Suc ?idx) hi) = Some (Inr t) \<and>
               t < length chunks \<and> chunk_offset (chunks ! t) \<le> off \<and>
               (t = length chunks - 1 \<or> off < chunk_offset (chunks ! Suc t))"
        proof (rule less.hyps)
          show "hi - Suc ?idx < hi - lo" using idx_lt by linarith
          show "Suc ?idx \<le> hi" using idx_lt by simp
          show "hi < length chunks" using less.prems(2) .
          show "chunk_offset (chunks ! Suc ?idx) \<le> off" using False by simp
          show "hi = length chunks - 1 \<or> off < chunk_offset (chunks ! Suc hi)"
            using less.prems(4) .
        qed
        then show ?thesis using step by simp
      qed
    qed
  qed
qed

lemma fold_max_ge: "(a::int) \<le> fold max xs a"
proof (induction xs arbitrary: a)
  case Nil
  then show ?case by simp
next
  case (Cons x xs)
  have "a \<le> max x a" by simp
  also have "\<dots> \<le> fold max xs (max x a)" using Cons.IH .
  finally show ?case by simp
qed

lemma unused_fd_nonneg: "0 \<le> unused_fd os"
  using fold_max_ge [of "- 1" "map fst (open_fds os)"] by (simp add: unused_fd_def)

lemma fetchable_nth:
  "chunks_fetchable env chunks \<Longrightarrow> i < length chunks \<Longrightarrow>
   chunk_store env (ToString (content_hash (chunks ! i))) = Some (chunk_content env (chunks ! i)) \<and>
   length (chunk_content env (chunks ! i)) = chunk_size (chunks ! i)"
  by (auto simp: chunks_fetchable_def list_all_length chunk_content_def split: option.splits)

lemma open_chunk_fd_ok:
  assumes "i < length chunks" and "chunks_fetchable env chunks"
    and "chunk_fd_valid env chunks os cfd"
  shows "\<exists>cfd1 os1. open_chunk_fd env chunks os cfd i = (True, cfd1, os1) \<and>
           fd cfd1 \<noteq> - 1 \<and> chunk_idx cfd1 = i \<and>
           map_of (open_fds os1) (fd cfd1) = Some (chunk_content env (chunks ! i))"
proof (cases "fd cfd = - 1 \<or> chunk_idx cfd \<noteq> i")
  case False
  then show ?thesis
    using assms(3) by (simp add: open_chunk_fd_def chunk_fd_valid_def)
next
  case True
  let ?os = "if fd cfd \<noteq> - 1 then snd (os_close os (fd cfd)) else os"
  have st: "chunk_store env (ToString (content_hash (chunks ! i))) =
              Some (chunk_content env (chunks ! i))"
    using fetchable_nth [OF assms(2) assms(1)] by simp
  have f: "FetchChunk env (chunks ! i) ?os =
             (unused_fd ?os,
              ?os\<lparr> open_fds := (unused_fd ?os, chunk_content env (chunks ! i)) # open_fds ?os \<rparr>)"
    by (simp add: FetchChunk_def st)
  have nn: "0 \<le> unused_fd ?os" by (rule unused_fd_nonneg)
  have "open_chunk_fd env chunks os cfd i =
          (True, \<lparr> fd = unused_fd ?os, chunk_idx = i \<rparr>,
           ?os\<lparr> open_fds := (unused_fd ?os, chunk_content env (chunks ! i)) # open_fds ?os \<rparr>)"
    using True nn unfolding open_chunk_fd_def f by auto
  then show ?thesis using nn by auto
qed

lemma take_min_length: "take (min a (length xs)) xs = take a xs"
  by (simp add: min_def)

lemma read_chunks_step:
  assumes "i < length chunks"
    and "open_chunk_fd env chunks os cfd i = (True, cfd1, os1)"
    and "os_pread os1 (fd cfd1)
           (min (sz - overall) (u64 (int (chunk_size (chunks ! i)) - oic))) oic = Inr fetched"
  shows "read_chunks env chunks sz os cfd i oic data overall =
           (if u32 (int overall + int (length fetched)) < sz \<and> u32 (int i + 1) < length chunks
            then read_chunks env chunks sz os1 cfd1 (u32 (int i + 1)) 0
                   (take overall data @ fetched) (u32 (int overall + int (length fetched)))
            else Some (Inr (Inr (take (u32 (int overall + int (length fetched)))
                                   (take overall data @ fetched)), cfd1, os1)))"
  using assms by (subst read_chunks.simps) simp

lemma read_chunks_correct:
  assumes n32: "length chunks < 4294967296"
    and fetch: "chunks_fetchable env chunks"
    and sz32: "sz < 4294967296"
    and sizes: "\<forall>c \<in> set chunks. chunk_size c < 18446744073709551616"
  shows "i < length chunks \<Longrightarrow> 0 \<le> oic \<Longrightarrow> nat oic \<le> chunk_size (chunks ! i) \<Longrightarrow>
         length d \<le> sz \<Longrightarrow> chunk_fd_valid env chunks os cfd \<Longrightarrow>
         \<exists>cfd' os'.
           read_chunks env chunks sz os cfd i oic d (length d) =
             Some (Inr (Inr (d @ take (sz - length d)
                               (drop (nat oic) (concat (map (chunk_content env) (drop i chunks))))),
                        cfd', os')) \<and>
           chunk_fd_valid env chunks os' cfd'"
proof (induction "length chunks - i" arbitrary: i oic d os cfd rule: less_induct)
  case less
  define content where "content = chunk_content env (chunks ! i)"
  define xs where "xs = drop (nat oic) content"
  define rest where "rest = concat (map (chunk_content env) (drop (Suc i) chunks))"
  define a where "a = sz - length d"
  define k where "k = chunk_size (chunks ! i) - nat oic"
  define n where "n = min a k"
  define fetched where "fetched = take n xs"
  obtain cfd1 os1 where op: "open_chunk_fd env chunks os cfd i = (True, cfd1, os1)"
      "fd cfd1 \<noteq> - 1" "chunk_idx cfd1 = i"
      "map_of (open_fds os1) (fd cfd1) = Some content"
    using open_chunk_fd_ok [OF less.prems(1) fetch less.prems(5)] unfolding content_def by blast
  have valid1: "chunk_fd_valid env chunks os1 cfd1"
    using op less.prems(1) by (simp add: chunk_fd_valid_def content_def)
  have len: "length content = chunk_size (chunks ! i)"
    using fetchable_nth [OF fetch less.prems(1)] by (simp add: content_def)
  have lenxs: "length xs = k" using len by (simp add: xs_def k_def)
  have n_le: "n \<le> a" "n \<le> k" by (simp_all add: n_def)
  have cs64: "chunk_size (chunks ! i) < 18446744073709551616"
    using sizes less.prems(1) by simp
  have rem: "u64 (int (chunk_size (chunks ! i)) - oic) = k"
  proof -
    have "0 \<le> int (chunk_size (chunks ! i)) - oic" using less.prems(2,3) by linarith
    moreover have "int (chunk_size (chunks ! i)) - oic < 18446744073709551616"
      using cs64 less.prems(2) by linarith
    ultimately have "u64 (int (chunk_size (chunks ! i)) - oic) =
                       nat (int (chunk_size (chunks ! i)) - oic)"
      by (rule u64_id)
    also have "\<dots> = k" using less.prems(2) unfolding k_def by linarith
    finally show ?thesis .
  qed
  have pr0: "os_pread os1 (fd cfd1) n oic = Inr fetched"
    using op(4) less.prems(2) by (simp add: os_pread_def fetched_def xs_def)
  have pr: "os_pread os1 (fd cfd1)
              (min (sz - length d) (u64 (int (chunk_size (chunks ! i)) - oic))) oic = Inr fetched"
    unfolding rem using pr0 by (simp add: n_def a_def)
  have lf: "length fetched = n" using lenxs n_le(2) by (simp add: fetched_def)
  have fa: "fetched = take a xs"
    using take_min_length [of a xs] by (simp add: fetched_def n_def lenxs)
  have dn: "length d + n \<le> sz" using less.prems(4) n_le(1) unfolding a_def by linarith
  have ov: "u32 (int (length d) + int (length fetched)) = length d + n"
  proof -
    have "length d + n < 4294967296" using dn sz32 by linarith
    then have "u32 (int (length d + n)) = length d + n" by (rule u32_of_nat)
    then show ?thesis using lf by simp
  qed
  have suc: "u32 (int i + 1) = Suc i"
    using u32_suc [of i] less.prems(1) n32 by linarith
  have dropi: "drop i chunks = chunks ! i # drop (Suc i) chunks"
    using less.prems(1) by (simp add: Cons_nth_drop_Suc)
  have stream: "drop (nat oic) (concat (map (chunk_content env) (drop i chunks))) = xs @ rest"
    using len less.prems(3) unfolding dropi by (simp add: xs_def rest_def content_def)
  have unfold: "read_chunks env chunks sz os cfd i oic d (length d) =
      (if length d + n < sz \<and> Suc i < length chunks
       then read_chunks env chunks sz os1 cfd1 (Suc i) 0 (d @ fetched) (length d + n)
       else Some (Inr (Inr (d @ fetched), cfd1, os1)))"
    using read_chunks_step [OF less.prems(1) op(1) pr, of d] lf
    unfolding ov suc by simp
  show ?case
  proof (cases "length d + n < sz \<and> Suc i < length chunks")
    case True
    then have si: "Suc i < length chunks" by simp
    have "n < a" using True unfolding a_def by linarith
    then have nk: "n = k" unfolding n_def by simp
    then have fx: "fetched = xs" using lenxs by (simp add: fetched_def)
    have "\<exists>cfd' os'.
           read_chunks env chunks sz os1 cfd1 (Suc i) 0 (d @ fetched) (length (d @ fetched)) =
             Some (Inr (Inr ((d @ fetched) @ take (sz - length (d @ fetched))
                               (drop (nat 0) (concat (map (chunk_content env) (drop (Suc i) chunks))))),
                        cfd', os')) \<and>
           chunk_fd_valid env chunks os' cfd'"
    proof (rule less.hyps)
      show "length chunks - Suc i < length chunks - i" using less.prems(1) by simp
      show "Suc i < length chunks" using si .
      show "(0::int) \<le> 0" by simp
      show "nat 0 \<le> chunk_size (chunks ! Suc i)" by simp
      show "length (d @ fetched) \<le> sz" using dn lf by simp
      show "chunk_fd_valid env chunks os1 cfd1" using valid1 .
    qed
    then obtain cfd' os' where r:
        "read_chunks env chunks sz os1 cfd1 (Suc i) 0 (d @ fetched) (length d + n) =
           Some (Inr (Inr ((d @ fetched) @ take (sz - (length d + n)) rest), cfd', os'))"
        "chunk_fd_valid env chunks os' cfd'"
      using lf by (auto simp: rest_def)
    have "length xs < a" using \<open>n < a\<close> nk lenxs by simp
    then have "take a (xs @ rest) = xs @ take (a - length xs) rest" by simp
    moreover have "a - length xs = sz - (length d + n)"
      unfolding a_def lenxs nk by simp
    ultimately have "d @ take a (xs @ rest) = (d @ fetched) @ take (sz - (length d + n)) rest"
      using fx by simp
    then show ?thesis
      unfolding unfold stream a_def [symmetric] using True r by simp
  next
    case False
    have res: "read_chunks env chunks sz os cfd i oic d (length d) =
                 Some (Inr (Inr (d @ fetched), cfd1, os1))"
      unfolding unfold using False by auto
    have "take a (xs @ rest) = fetched"
    proof (cases "length d + n < sz")
      case True
      then have "\<not> Suc i < length chunks" using False by simp
      then have "rest = []" by (simp add: rest_def)
      then show ?thesis using fa by simp
    next
      case False
      then have "a \<le> n" using dn unfolding a_def by linarith
      then have "a \<le> length xs" using n_le(2) lenxs by linarith
      then show ?thesis using fa by simp
    qed
    then show ?thesis
      unfolding res stream a_def [symmetric] using valid1 by simp
  qed
qed

lemma file_size_split:
  "i < length chunks \<Longrightarrow>
   file_size chunks = sum_list (map chunk_size (take i chunks)) + chunk_size (chunks ! i) +
                      sum_list (map chunk_size (drop (Suc i) chunks))"
proof -
  assume i: "i < length chunks"
  have "chunks = take i chunks @ chunks ! i # drop (Suc i) chunks"
    using i by (simp add: id_take_nth_drop)
  then have "map chunk_size chunks =
               map chunk_size (take i chunks) @ chunk_size (chunks ! i) #
               map chunk_size (drop (Suc i) chunks)"
    by (metis list.simps(9) map_append)
  then show ?thesis by (simp add: file_size_def)
qed

lemma content_prefix_length:
  "chunks_fetchable env chunks \<Longrightarrow>
   length (concat (map (chunk_content env) (take i chunks))) =
     sum_list (map chunk_size (take i chunks))"
proof (induction chunks arbitrary: i)
  case Nil
  then show ?case by simp
next
  case (Cons c cs)
  then show ?case by (cases i) (auto simp: chunks_fetchable_def)
qed

lemma chunk_size_bound:
  "file_size chunks < b \<Longrightarrow> c \<in> set chunks \<Longrightarrow> chunk_size c < b"
proof -
  assume b: "file_size chunks < b" and c: "c \<in> set chunks"
  have "chunk_size c \<le> sum_list (map chunk_size chunks)"
    using c by (simp add: member_le_sum_list)
  then show ?thesis using b by (simp add: file_size_def)
qed

text \<open>
  C2. For a chunked file whose chunk list is contiguous from offset 0 with strictly
  increasing offsets, whose chunks the fetcher can deliver in their recorded sizes, and whose
  handle is closed or open on the chunk it names: every read of \<open>sz\<close> bytes at an offset
  inside the file returns, and replies with the bytes of the concatenated chunk contents
  from \<open>off\<close> on, \<open>sz\<close> of them or as many as the file has left; and the binary search
  ends on the chunk whose offset range contains \<open>off\<close>. (The list has fewer than
  \<open>2^32\<close> chunks, the file fewer than \<open>2^63\<close> bytes, and \<open>sz\<close> is below \<open>2^32\<close>; the
  kernel asks for at most 128 KiB.)
\<close>

theorem cvmfs_read_chunked:
  assumes tab: "inode2chunks (chunk_tables g) ino = Some chunks"
    and wf: "contiguous_from 0 (chunk_list chunks)"
    and n32: "length (chunk_list chunks) < 4294967296"
    and fs: "file_size (chunk_list chunks) < 9223372036854775808"
    and fetch: "chunks_fetchable env (chunk_list chunks)"
    and off: "0 \<le> off" "off < int (file_size (chunk_list chunks))"
    and sz32: "sz < 4294967296"
    and handle: "sint (fh fi) < 0" "handle2fd (chunk_tables g) (- fh fi) = Some cfd"
    and valid: "chunk_fd_valid env (chunk_list chunks) os cfd"
  shows "(\<exists>g' os'.
            cvmfs_read env g os ino sz off fi =
              Some (Inr (fuse_reply_buf
                           (take sz (drop (nat off) (file_content env (chunk_list chunks)))),
                         g', os'))) \<and>
         (\<exists>t < length (chunk_list chunks).
            chunk_search (chunk_list chunks) off 0
              (u32 (int (length (chunk_list chunks)) - 1))
              (u32 (int (length (chunk_list chunks)) - 1) div 2) = Some (Inr t) \<and>
            chunk_offset (chunk_list chunks ! t) \<le> off \<and>
            off < chunk_offset (chunk_list chunks ! t) + int (chunk_size (chunk_list chunks ! t)))"
proof -
  define cs where "cs = chunk_list chunks"
  have ne: "cs \<noteq> []"
  proof
    assume "cs = []"
    then have "file_size cs = 0" by (simp add: file_size_def)
    then show False using off unfolding cs_def by simp
  qed
  then have len: "0 < length cs" by simp
  have hi: "u32 (int (length cs) - 1) = length cs - 1"
    using u32_pred [OF len] n32 unfolding cs_def by simp
  have mid0: "idx_middle 0 (length cs - 1) = (length cs - 1) div 2"
    using idx_middle_simple [of 0 "length cs - 1"] n32 unfolding cs_def by simp
  have first: "chunk_offset (cs ! 0) \<le> off"
    using contiguous_first [of 0 cs] wf ne off(1) unfolding cs_def by simp
  obtain t where t: "chunk_search cs off 0 (length cs - 1) (idx_middle 0 (length cs - 1)) = Some (Inr t)"
      "t < length cs" "chunk_offset (cs ! t) \<le> off"
      "t = length cs - 1 \<or> off < chunk_offset (cs ! Suc t)"
    using chunk_search_correct [of cs 0 "length cs - 1" off] wf n32 len first
    unfolding cs_def by auto
  have start: "chunk_offset (cs ! t) = int (sum_list (map chunk_size (take t cs)))"
    using contiguous_start [of 0 cs t] wf t(2) unfolding cs_def by simp
  have inside: "off < chunk_offset (cs ! t) + int (chunk_size (cs ! t))"
  proof (cases "t = length cs - 1")
    case True
    then have "drop (Suc t) cs = []" using len by simp
    then have "file_size cs = sum_list (map chunk_size (take t cs)) + chunk_size (cs ! t)"
      using file_size_split [OF t(2)] by simp
    then show ?thesis using off(2) start unfolding cs_def by simp
  next
    case False
    then have "Suc t < length cs" using t(2) by simp
    then have "chunk_offset (cs ! Suc t) = chunk_offset (cs ! t) + int (chunk_size (cs ! t))"
      using contiguous_next [of 0 cs t] wf unfolding cs_def by simp
    then show ?thesis using t(4) False by simp
  qed
  define oic where "oic = off - chunk_offset (cs ! t)"
  have oic: "0 \<le> oic" "nat oic \<le> chunk_size (cs ! t)"
    using t(3) inside unfolding oic_def by linarith+
  have sizes: "\<forall>c \<in> set cs. chunk_size c < 18446744073709551616"
  proof
    fix c assume "c \<in> set cs"
    then have "chunk_size c < 9223372036854775808"
      using chunk_size_bound [of cs 9223372036854775808 c] fs unfolding cs_def by simp
    then show "chunk_size c < 18446744073709551616" by simp
  qed
  obtain cfd' os' where r:
      "read_chunks env cs sz os cfd t oic [] (length ([] :: byte list)) =
         Some (Inr (Inr ([] @ take (sz - length ([] :: byte list))
                          (drop (nat oic) (concat (map (chunk_content env) (drop t cs))))),
                    cfd', os'))"
    using read_chunks_correct [of cs env sz t oic "[]" os cfd] n32 fetch sz32 sizes t(2) oic valid
    unfolding cs_def by auto
  have pre: "length (concat (map (chunk_content env) (take t cs))) = nat (chunk_offset (cs ! t))"
    using content_prefix_length [of env cs t] fetch start unfolding cs_def by simp
  have "file_content env cs =
          concat (map (chunk_content env) (take t cs)) @ concat (map (chunk_content env) (drop t cs))"
    unfolding file_content_def by (metis append_take_drop_id concat_append map_append)
  moreover have "nat off = nat (chunk_offset (cs ! t)) + nat oic"
    using t(3) oic(1) start unfolding oic_def by linarith
  ultimately have stream:
    "drop (nat off) (file_content env cs) =
       drop (nat oic) (concat (map (chunk_content env) (drop t cs)))"
    using pre by simp
  have r': "read_chunks env cs sz os cfd t (off - chunk_offset (cs ! t)) [] 0 =
              Some (Inr (Inr (take sz (drop (nat off) (file_content env cs))), cfd', os'))"
    using r unfolding stream oic_def by simp
  have s': "chunk_search cs off 0 (u32 (int (length cs) - 1)) (u32 (int (length cs) - 1) div 2) =
              Some (Inr t)"
    unfolding hi using t(1) unfolding mid0 .
  have "\<exists>g' os'.
          cvmfs_read env g os ino sz off fi =
            Some (Inr (fuse_reply_buf (take sz (drop (nat off) (file_content env cs))), g', os'))"
    using tab ne handle t(2) r' s'
    unfolding cs_def
    by (simp add: cvmfs_read_def Let_def)
  moreover have "\<exists>t < length cs.
          chunk_search cs off 0 (u32 (int (length cs) - 1)) (u32 (int (length cs) - 1) div 2) =
            Some (Inr t) \<and>
          chunk_offset (cs ! t) \<le> off \<and>
          off < chunk_offset (cs ! t) + int (chunk_size (cs ! t))"
    using s' t(2) t(3) inside by blast
  ultimately show ?thesis unfolding cs_def by blast
qed

theorem cvmfs_read_chunked_witness:
  "inode2chunks (chunk_tables reading_globals) 300 = Some sample_reflist \<and>
   contiguous_from 0 (chunk_list sample_reflist) \<and>
   length (chunk_list sample_reflist) < 4294967296 \<and>
   file_size (chunk_list sample_reflist) = 10 \<and>
   chunks_fetchable sample_read_env (chunk_list sample_reflist) \<and>
   sint (fh chunk_fi) < 0 \<and>
   handle2fd (chunk_tables reading_globals) (- fh chunk_fi) = Some ChunkFd_new \<and>
   chunk_fd_valid sample_read_env (chunk_list sample_reflist) no_fds ChunkFd_new \<and>
   file_content sample_read_env (chunk_list sample_reflist) = [1, 2, 3, 4, 5, 6, 7, 8, 9, 10] \<and>
   (case cvmfs_read sample_read_env reading_globals no_fds 300 5 2 chunk_fi of
      Some (Inr (r, g', os')) \<Rightarrow> r = fuse_reply_buf [3, 4, 5, 6, 7]
    | Some (Inl e) \<Rightarrow> False
    | None \<Rightarrow> False)"
proof -
  have tab: "inode2chunks (chunk_tables reading_globals) 300 = Some sample_reflist"
    by (simp add: reading_globals_def)
  have wf: "contiguous_from 0 (chunk_list sample_reflist)"
    by (simp add: sample_reflist_def sample_chunks_def)
  have n32: "length (chunk_list sample_reflist) < 4294967296"
    by (simp add: sample_reflist_def sample_chunks_def)
  have fsz: "file_size (chunk_list sample_reflist) = 10"
    by (simp add: sample_reflist_def sample_chunks_def file_size_def)
  have fs: "file_size (chunk_list sample_reflist) < 9223372036854775808"
    unfolding fsz by simp
  have fetch: "chunks_fetchable sample_read_env (chunk_list sample_reflist)"
    by (simp add: chunks_fetchable_def chunk_content_def sample_reflist_def sample_chunks_def
          sample_read_env_def)
  have off: "(0::int) \<le> 2" "(2::int) < int (file_size (chunk_list sample_reflist))"
    unfolding fsz by simp_all
  have sz32: "(5::nat) < 4294967296" by simp
  have h1: "sint (fh chunk_fi) < 0"
    by (simp add: chunk_fi_def)
  have h2: "handle2fd (chunk_tables reading_globals) (- fh chunk_fi) = Some ChunkFd_new"
    by (simp add: reading_globals_def chunk_fi_def)
  have valid: "chunk_fd_valid sample_read_env (chunk_list sample_reflist) no_fds ChunkFd_new"
    by (simp add: chunk_fd_valid_def ChunkFd_new_def)
  have content: "file_content sample_read_env (chunk_list sample_reflist) =
                   [1, 2, 3, 4, 5, 6, 7, 8, 9, 10]"
    by (simp add: file_content_def chunk_content_def sample_reflist_def sample_chunks_def
          sample_read_env_def)
  obtain g' os' where
    "cvmfs_read sample_read_env reading_globals no_fds 300 5 2 chunk_fi =
       Some (Inr (fuse_reply_buf
                    (take 5 (drop (nat 2) (file_content sample_read_env (chunk_list sample_reflist)))),
                  g', os'))"
    using cvmfs_read_chunked [OF tab wf n32 fs fetch off sz32 h1 h2 valid] by blast
  then have "cvmfs_read sample_read_env reading_globals no_fds 300 5 2 chunk_fi =
               Some (Inr (fuse_reply_buf [3, 4, 5, 6, 7], g', os'))"
    unfolding content by simp
  then show ?thesis
    using tab wf n32 fsz fetch h1 h2 valid content by simp
qed

section \<open>The remount fence under interleaving\<close>

lemma filter_update_inside:
  assumes "i < length xs"
  shows "length (filter (\<lambda>p. p = ReaderInside) (xs[i := v])) +
           (if xs ! i = ReaderInside then 1 else 0) =
         length (filter (\<lambda>p. p = ReaderInside) xs) + (if v = ReaderInside then 1 else 0)"
  using assms
proof (induction xs arbitrary: i)
  case Nil
  then show ?case by simp
next
  case (Cons x xs)
  show ?case
  proof (cases i)
    case 0
    then show ?thesis by simp
  next
    case (Suc j)
    then have "j < length xs" using Cons.prems by simp
    from Cons.IH [OF this] show ?thesis using Suc by (auto split: if_splits)
  qed
qed

lemma reader_step_counter:
  assumes "counter (fence s) = of_nat (readers_inside s)"
  shows "counter (fence (reader_step i s)) = of_nat (readers_inside (reader_step i s))"
proof (cases "i < length (readers s)")
  case False
  then show ?thesis using assms by (simp add: reader_step_def)
next
  case True
  show ?thesis
  proof (cases "readers s ! i")
    case ReaderOutside
    then show ?thesis
      using assms True filter_update_inside [OF True, of ReaderPassedCheck]
      by (simp add: reader_step_def readers_inside_def)
  next
    case ReaderPassedCheck
    then show ?thesis
      using assms True filter_update_inside [OF True, of ReaderInside]
      by (simp add: reader_step_def readers_inside_def)
  next
    case ReaderInside
    then have "readers_inside (reader_step i s) + 1 = readers_inside s"
      using True filter_update_inside [OF True, of ReaderOutside]
      by (simp add: reader_step_def readers_inside_def)
    then have "(of_nat (readers_inside s) :: 64 word) =
                 of_nat (readers_inside (reader_step i s) + 1)"
      by simp
    then have e: "of_nat (readers_inside (reader_step i s)) =
                    (of_nat (readers_inside s) - 1 :: 64 word)"
      by simp
    have "counter (fence (reader_step i s)) = counter (fence s) - 1"
      using True ReaderInside by (simp add: reader_step_def)
    then show ?thesis unfolding e assms by simp
  qed
qed

lemma committer_step_counter:
  "counter (fence (committer_step s)) = counter (fence s) \<and>
   readers_inside (committer_step s) = readers_inside s"
  by (simp add: committer_step_def readers_inside_def split: committer_pc.splits)

text \<open>
  The counter does what it is meant to do: under every schedule it equals the number of
  readers between their increment in \<open>Enter\<close> and their decrement in \<open>Leave\<close>.
\<close>

lemma counter_counts_readers_inside:
  assumes "counter (fence s) = of_nat (readers_inside s)"
  shows "counter (fence (run_schedule sched s)) = of_nat (readers_inside (run_schedule sched s))"
  using assms
proof (induction sched s rule: run_schedule.induct)
  case (1 s)
  then show ?case by simp
next
  case (2 i rest s)
  then show ?case using reader_step_counter by simp
next
  case (3 rest s)
  then show ?case using committer_step_counter by simp
qed

lemma sint_of_nat_small: "n < 2 ^ 63 \<Longrightarrow> sint (of_nat n :: 64 word) = int n"
  by (simp add: sint_uint signed_take_bit_int_eq_self_iff take_bit_nat_eq_self unsigned_of_nat)

text \<open>
  \<open>Block\<close> returns only on a test that finds the counter not positive, so no reader has
  incremented without decrementing at that moment (with fewer than \<open>2^63\<close> threads).
\<close>

lemma Block_returns_with_no_reader_inside:
  assumes inv: "counter (fence s) = of_nat (readers_inside s)"
    and few: "length (readers s) < 2 ^ 63"
    and "committer s = CommitterWaiting"
    and "committer (committer_step s) = CommitterHolding"
  shows "readers_inside s = 0"
proof -
  have le: "readers_inside s \<le> length (readers s)" by (simp add: readers_inside_def)
  have "\<not> sint (counter (fence s)) > 0"
    using assms(3,4) by (auto simp: committer_step_def split: if_splits)
  moreover have "sint (of_nat (readers_inside s) :: 64 word) = int (readers_inside s)"
  proof (rule sint_of_nat_small)
    show "readers_inside s < 2 ^ 63" using le few by linarith
  qed
  ultimately show ?thesis using inv by simp
qed

text \<open>An \<open>Enter\<close> that tests the flag while it is set does not get past the loop.\<close>

lemma Enter_waits_while_blocked:
  assumes "i < length (readers s)" and "readers s ! i = ReaderOutside"
    and "blocking (fence s) \<noteq> 0"
  shows "reader_step i s = s"
  using assms by (simp add: reader_step_def)

text \<open>
  C1. The mutual exclusion fails. \<open>Enter\<close> tests the flag and increments the counter in
  two atomic operations. With two reader threads, reader 0 tests the flag and finds it clear;
  the committer then runs \<open>Block\<close>: it sets the flag, finds the counter zero and returns;
  reader 0 then increments the counter. After these four steps the committer is between the
  return of \<open>Block\<close> and \<open>Unblock\<close>, and reader 0 is inside its critical section, with the
  flag set and the counter at one.
\<close>

theorem RemountFence_enter_races_with_block:
  "committer (run_schedule [ReaderStep 0, CommitterStep, CommitterStep, ReaderStep 0]
                (fence_init 2)) = CommitterHolding \<and>
   readers (run_schedule [ReaderStep 0, CommitterStep, CommitterStep, ReaderStep 0]
              (fence_init 2)) = [ReaderInside, ReaderOutside] \<and>
   fence (run_schedule [ReaderStep 0, CommitterStep, CommitterStep, ReaderStep 0]
            (fence_init 2)) = \<lparr> counter = 1, blocking = 1 \<rparr>"
  by (simp add: fence_init_def reader_step_def committer_step_def atomic_cas32_def
        numeral_2_eq_2)

end
